theory Spec2Isabelle
  imports Complex_Main "HOL-Library.Log_Nat"
begin

section \<open>Numbers, vectors and configuration\<close>

text \<open>
  The solver of \<^verbatim>\<open>src/solver.js\<close> computes on IEEE doubles and stores its fields in
  32-bit float arrays. This development reads the arithmetic of the solver over the real
  numbers, without rounding, with one exception: the cell sizes and the time step of the
  constructor. Over the reals their stability bound holds with equality, so that rounding
  decides it, and the section on the fixed time step models them in double precision as
  well. Two arguments are tested with
  \<^verbatim>\<open>Number.isFinite\<close> before they are used (the elapsed time of \<^verbatim>\<open>step\<close> and the
  solver speed), so they carry the non-finite values explicitly. All other numbers are
  finite reals, as the state normaliser of \<^verbatim>\<open>src/state.js\<close> delivers them; for them
  \<^verbatim>\<open>Number.isFinite\<close> is true and its guard is not written.
\<close>

datatype jsnum = Num real | PosInfinity | NegInfinity | NaN

definition TAU :: real where
  "TAU = pi * 2"

definition clamp :: "'a::linorder \<Rightarrow> 'a \<Rightarrow> 'a \<Rightarrow> 'a" where
  "clamp v lo hi = min hi (max lo v)"

text \<open>\<^verbatim>\<open>Math.round\<close> rounds halves upwards.\<close>

definition js_round :: "real \<Rightarrow> int" where
  "js_round v = \<lfloor>v + 1 / 2\<rfloor>"

text \<open>A point or an extent is a pair \<open>(x, y)\<close>; the grid request is \<open>(nx, ny)\<close>.\<close>

record domain =
  worldSize :: "real \<times> real"
  grid :: "real \<times> real"
  origin :: "real \<times> real"

record solver_settings =
  speed :: jsnum
  attenuation :: "real option"

record solver_config =
  cfg_domain :: domain
  cfg_solver :: solver_settings
  cfg_avgTau :: "real option"
  cfg_cfl :: "real option"
  cfg_pmlWidth :: "real option"

section \<open>Sources\<close>

datatype waveform = CW | Gaussian | Ricker
datatype injection = Soft | Hard
datatype excite = ExciteHz | ExciteEx | ExciteEy | ExciteE

text \<open>
  The editor's source object, and the flattened source of \<^verbatim>\<open>setSources\<close>: the scalar
  solver keeps the first eight fields, the electromagnetic solver adds the excited
  component and the polarization angle.
\<close>

record source_object =
  so_position :: "real \<times> real"
  so_active :: bool
  so_amplitude :: real
  so_phase :: real
  so_frequency :: real
  so_waveform :: "waveform option"
  so_pulseWidth :: "real option"
  so_pulseDelay :: "real option"
  so_injection :: "injection option"
  so_excite :: "excite option"
  so_polarizationAngle :: "real option"

record wave_source =
  index :: nat
  amplitude :: real
  phase :: real
  frequency :: real
  waveform :: waveform
  pulseWidth :: real
  pulseDelay :: real
  injection :: injection

record active_source = wave_source +
  excite :: excite
  polarizationAngle :: real

definition evalSourceSignal :: "'a wave_source_scheme \<Rightarrow> real \<Rightarrow> real" where
  "evalSourceSignal source t =
     (let f = max 0 (frequency source);
          ph = phase source;
          t0 = pulseDelay source;
          w = max 0.000001 (pulseWidth source);
          tau = t - t0
      in case waveform source of
           Gaussian \<Rightarrow>
             (let env = exp (- 0.5 * (tau / w) * (tau / w))
              in env * sin (TAU * f * tau + ph))
         | Ricker \<Rightarrow>
             (let phaseShift = (if f > 0 then ph / (TAU * f) else 0);
                  tt = tau + phaseShift;
                  a = pi * f * tt;
                  a2 = a * a
              in (1 - 2 * a2) * exp (- a2))
         | CW \<Rightarrow> sin (TAU * f * t + ph))"

section \<open>Shapes and materials\<close>

record material =
  preset :: string
  epsR :: "real option"
  sigma :: "real option"

record shape_object =
  kind :: string
  center :: "real \<times> real"
  radius :: "real option"
  shape_size :: "(real \<times> real) option"
  angles_z :: "real option"
  shape_material :: "material option"

section \<open>The electromagnetic solver state\<close>

record solver_stats =
  stats_time :: real
  maxInstantaneous :: real
  meanInstantaneous :: real

text \<open>
  The byte masks (\<^verbatim>\<open>Uint8Array\<close> holding 0 or 1, or \<^verbatim>\<open>null\<close>) are optional lists of
  booleans; the float arrays are lists of reals.
\<close>

record em_solver =
  nx :: nat
  ny :: nat
  solver_domain :: domain
  dx :: real
  dy :: real
  dt :: real
  time :: real
  avgTau :: real
  loss :: real
  mu :: real
  eps :: real
  ex :: "real list"
  ey :: "real list"
  hz :: "real list"
  instantaneous :: "real list"
  avgPower :: "real list"
  avgMagnitude :: "real list"
  sources :: "active_source list"
  epsRGrid :: "real list"
  sigmaGrid :: "real list"
  metalMask :: "bool list option"
  accumulator :: real
  maxSubstepsPerFrame :: nat
  stats :: solver_stats
  pmlWidth :: real
  pmlSigma :: "real list option"
  pmlMask :: "bool list option"

text \<open>
  \<^verbatim>\<open>mask && mask[i]\<close>: a missing mask marks nothing, and a read past the end of a
  typed array is \<^verbatim>\<open>undefined\<close>, which is falsy.
\<close>

definition mask_at :: "bool list option \<Rightarrow> nat \<Rightarrow> bool" where
  "mask_at msk i = (case msk of None \<Rightarrow> False | Some m \<Rightarrow> i < length m \<and> m ! i)"

subsection \<open>Boundary profile\<close>

definition buildPmlSigma :: "nat \<Rightarrow> nat \<Rightarrow> real \<Rightarrow> real \<Rightarrow> real \<Rightarrow> real \<Rightarrow> real list option" where
  "buildPmlSigma nx0 ny0 width dx0 dy0 waveSpeed =
     (if width \<le> 0 then None
      else
        let p = 3 :: nat;
            targetReflection = 0.000001 :: real;
            thickness = width * min dx0 dy0;
            sigmaMax = ((real p + 1) * ln (1 / targetReflection) * waveSpeed) / (2 * thickness)
        in Some (fold (\<lambda>y. fold (\<lambda>x sg.
                   let distY = min (int y) (int ny0 - 1 - int y);
                       rampY = (if real_of_int distY < width then (width - real_of_int distY) / width else 0);
                       distX = min (int x) (int nx0 - 1 - int x);
                       rampX = (if real_of_int distX < width then (width - real_of_int distX) / width else 0);
                       sigmaVal = sigmaMax * (rampX ^ p + rampY ^ p)
                   in sg[y * nx0 + x := sigmaVal]) [0..<nx0]) [0..<ny0]
                 (replicate (nx0 * ny0) 0)))"

definition buildPmlMask :: "nat \<Rightarrow> nat \<Rightarrow> real \<Rightarrow> bool list option" where
  "buildPmlMask nx0 ny0 width =
     (if width \<le> 0 then None
      else Some (fold (\<lambda>y. fold (\<lambda>x msk.
                   let distY = min (int y) (int ny0 - 1 - int y);
                       distX = min (int x) (int nx0 - 1 - int x)
                   in if real_of_int distX < width \<or> real_of_int distY < width
                      then msk[y * nx0 + x := True] else msk) [0..<nx0]) [0..<ny0]
                 (replicate (nx0 * ny0) False)))"

subsection \<open>Construction\<close>

definition waveSpeed_of :: "solver_settings \<Rightarrow> real" where
  "waveSpeed_of solver =
     (let rawSpeed = (case speed solver of Num v \<Rightarrow> v | _ \<Rightarrow> 1)
      in clamp rawSpeed 0.05 50)"

text \<open>
  The constants that the constructor computes before it fills the object: the grid
  counts, the cell sizes, the fixed time step and the usable width of the boundary band.
\<close>

definition nx_of :: "solver_config \<Rightarrow> nat" where
  "nx_of config = nat (max 2 \<lfloor>fst (grid (cfg_domain config))\<rfloor>)"

definition ny_of :: "solver_config \<Rightarrow> nat" where
  "ny_of config = nat (max 2 \<lfloor>snd (grid (cfg_domain config))\<rfloor>)"

definition dx_of :: "solver_config \<Rightarrow> real" where
  "dx_of config =
     fst (worldSize (cfg_domain config)) / real_of_int (max 1 (int (nx_of config) - 1))"

definition dy_of :: "solver_config \<Rightarrow> real" where
  "dy_of config =
     snd (worldSize (cfg_domain config)) / real_of_int (max 1 (int (ny_of config) - 1))"

definition cfl_of :: "solver_config \<Rightarrow> real" where
  "cfl_of config = (case cfg_cfl config of None \<Rightarrow> 0.45 | Some v \<Rightarrow> v)"

text \<open>
  The time step as a quotient of real numbers. The constructor computes it in double
  precision and rounds each of its three operations; \<open>dt_double\<close> below is that value.
\<close>

definition dt_of :: "solver_config \<Rightarrow> real" where
  "dt_of config =
     (let minCell = min (dx_of config) (dy_of config);
          waveSpeed = waveSpeed_of (cfg_solver config)
      in (cfl_of config * minCell) / (waveSpeed * sqrt 2))"

definition usablePmlWidth_of :: "solver_config \<Rightarrow> real" where
  "usablePmlWidth_of config =
     (let maxPmlWidth = \<lfloor>real (min (nx_of config) (ny_of config)) * 0.5\<rfloor> - 1;
          requestedPmlWidth =
            clamp (case cfg_pmlWidth config of None \<Rightarrow> 24 | Some v \<Rightarrow> v) 16 32
      in max 0 (min requestedPmlWidth (real_of_int maxPmlWidth)))"

definition EMSolver2D :: "solver_config \<Rightarrow> em_solver" where
  "EMSolver2D config =
     \<lparr> nx = nx_of config, ny = ny_of config, solver_domain = cfg_domain config,
       dx = dx_of config, dy = dy_of config, dt = dt_of config,
       time = 0,
       avgTau = max 0.05 (case cfg_avgTau config of None \<Rightarrow> 0.35 | Some v \<Rightarrow> v),
       loss = clamp (case attenuation (cfg_solver config) of None \<Rightarrow> 0 | Some v \<Rightarrow> v) 0 5,
       mu = 1,
       eps = 1 / (waveSpeed_of (cfg_solver config) * waveSpeed_of (cfg_solver config)),
       ex = replicate (nx_of config * ny_of config) 0,
       ey = replicate (nx_of config * ny_of config) 0,
       hz = replicate (nx_of config * ny_of config) 0,
       instantaneous = replicate (nx_of config * ny_of config) 0,
       avgPower = replicate (nx_of config * ny_of config) 0,
       avgMagnitude = replicate (nx_of config * ny_of config) 0,
       sources = [],
       epsRGrid = replicate (nx_of config * ny_of config) 1,
       sigmaGrid = replicate (nx_of config * ny_of config) 0,
       metalMask = None,
       accumulator = 0, maxSubstepsPerFrame = 8,
       stats = \<lparr> stats_time = 0, maxInstantaneous = 0, meanInstantaneous = 0 \<rparr>,
       pmlWidth = usablePmlWidth_of config,
       pmlSigma = buildPmlSigma (nx_of config) (ny_of config) (usablePmlWidth_of config)
                    (dx_of config) (dy_of config) (waveSpeed_of (cfg_solver config)),
       pmlMask = buildPmlMask (nx_of config) (ny_of config) (usablePmlWidth_of config) \<rparr>"

subsection \<open>Sources of the solver\<close>

definition indexFromWorld :: "real \<times> real \<Rightarrow> domain \<Rightarrow> nat \<Rightarrow> nat \<Rightarrow> nat" where
  "indexFromWorld position dmn nx0 ny0 =
     (let xNorm = (fst position - fst (origin dmn)) / fst (worldSize dmn);
          yNorm = (snd position - snd (origin dmn)) / snd (worldSize dmn);
          ix = min (int nx0 - 1) (max 0 (js_round (xNorm * real_of_int (int nx0 - 1))));
          iy = min (int ny0 - 1) (max 0 (js_round (yNorm * real_of_int (int ny0 - 1))))
      in nat (iy * int nx0 + ix))"

definition setSources :: "source_object list \<Rightarrow> em_solver \<Rightarrow> em_solver" where
  "setSources srcs s =
     s\<lparr>sources :=
         map (\<lambda>source.
               \<lparr> index = indexFromWorld (so_position source) (solver_domain s) (nx s) (ny s),
                 amplitude = so_amplitude source,
                 phase = so_phase source,
                 frequency = so_frequency source,
                 waveform = (case so_waveform source of None \<Rightarrow> CW | Some v \<Rightarrow> v),
                 pulseWidth = (case so_pulseWidth source of None \<Rightarrow> 0.4 | Some v \<Rightarrow> v),
                 pulseDelay = (case so_pulseDelay source of None \<Rightarrow> 0 | Some v \<Rightarrow> v),
                 injection = (case so_injection source of None \<Rightarrow> Soft | Some v \<Rightarrow> v),
                 excite = (case so_excite source of None \<Rightarrow> ExciteHz | Some v \<Rightarrow> v),
                 polarizationAngle =
                   (case so_polarizationAngle source of None \<Rightarrow> 0 | Some v \<Rightarrow> v) \<rparr>)
             (filter so_active srcs)\<rparr>"

subsection \<open>Material grids\<close>

record material_grids =
  mg_epsR :: "real list"
  mg_sigma :: "real list"
  mg_metalMask :: "bool list option"

text \<open>
  The index-space bounding box of a shape with bounding radius \<open>r\<close>, as the list of the
  cells \<open>(x, y)\<close> that the two nested loops visit, rows outermost.
\<close>

definition bbox_cells ::
  "real \<times> real \<Rightarrow> real \<Rightarrow> real \<Rightarrow> nat \<Rightarrow> nat \<Rightarrow> real \<times> real \<Rightarrow> real \<Rightarrow> (int \<times> int) list" where
  "bbox_cells org dx0 dy0 nx0 ny0 c r =
     (let minX = fst c - r;
          maxX = fst c + r;
          minY = snd c - r;
          maxY = snd c + r;
          ix0 = clamp \<lfloor>(minX - fst org) / dx0\<rfloor> 0 (int nx0 - 1);
          ix1 = clamp \<lceil>(maxX - fst org) / dx0\<rceil> 0 (int nx0 - 1);
          iy0 = clamp \<lfloor>(minY - snd org) / dy0\<rfloor> 0 (int ny0 - 1);
          iy1 = clamp \<lceil>(maxY - snd org) / dy0\<rceil> 0 (int ny0 - 1)
      in concat (map (\<lambda>y. map (\<lambda>x. (x, y)) [ix0..ix1]) [iy0..iy1]))"

definition circle_member ::
  "real \<times> real \<Rightarrow> real \<Rightarrow> real \<Rightarrow> real \<times> real \<Rightarrow> real \<Rightarrow> int \<Rightarrow> int \<Rightarrow> bool" where
  "circle_member org dx0 dy0 c r x y =
     (let r2 = r * r;
          wy = snd org + real_of_int y * dy0;
          dyc = wy - snd c;
          wx = fst org + real_of_int x * dx0;
          dxc = wx - fst c
      in dxc * dxc + dyc * dyc \<le> r2)"

definition rect_member ::
  "real \<times> real \<Rightarrow> real \<Rightarrow> real \<Rightarrow> real \<times> real \<Rightarrow> real \<Rightarrow> real \<Rightarrow> real \<Rightarrow> int \<Rightarrow> int \<Rightarrow> bool" where
  "rect_member org dx0 dy0 c halfW halfH angle x y =
     (let cosA = cos angle;
          sinA = sin angle;
          wy = snd org + real_of_int y * dy0;
          dyc = wy - snd c;
          wx = fst org + real_of_int x * dx0;
          dxc = wx - fst c;
          localX = cosA * dxc + sinA * dyc;
          localY = - sinA * dxc + cosA * dyc
      in \<bar>localX\<bar> \<le> halfW \<and> \<bar>localY\<bar> \<le> halfH)"

definition assign_cell :: "real \<Rightarrow> real \<Rightarrow> bool \<Rightarrow> nat \<Rightarrow> material_grids \<Rightarrow> material_grids" where
  "assign_cell epsVal sigVal isMetal idx g =
     g\<lparr>mg_epsR := (mg_epsR g)[idx := epsVal],
       mg_sigma := (mg_sigma g)[idx := sigVal],
       mg_metalMask := (case mg_metalMask g of None \<Rightarrow> None
                        | Some m \<Rightarrow> Some (m[idx := isMetal]))\<rparr>"

definition material_of :: "shape_object \<Rightarrow> material" where
  "material_of shape =
     (case shape_material shape of
        None \<Rightarrow> \<lparr> preset = ''drywall'', epsR = Some 2.7, sigma = Some 0.02 \<rparr>
      | Some m \<Rightarrow> m)"

definition epsVal_of :: "shape_object \<Rightarrow> real" where
  "epsVal_of shape = clamp (case epsR (material_of shape) of None \<Rightarrow> 1 | Some v \<Rightarrow> v) 1 20"

definition sigVal_of :: "shape_object \<Rightarrow> real" where
  "sigVal_of shape = clamp (case sigma (material_of shape) of None \<Rightarrow> 0 | Some v \<Rightarrow> v) 0 200"

definition isMetal_of :: "shape_object \<Rightarrow> bool" where
  "isMetal_of shape = (preset (material_of shape) = ''metal'')"

text \<open>One iteration of the loop over the shapes in \<^verbatim>\<open>buildMaterialGrids\<close>.\<close>

definition paint_shape :: "domain \<Rightarrow> nat \<Rightarrow> nat \<Rightarrow> shape_object \<Rightarrow> material_grids \<Rightarrow> material_grids" where
  "paint_shape dmn nx0 ny0 shape g0 =
     (let epsVal = epsVal_of shape;
          sigVal = sigVal_of shape;
          isMetal = isMetal_of shape;
          g = (if isMetal \<and> mg_metalMask g0 = None
               then g0\<lparr>mg_metalMask := Some (replicate (nx0 * ny0) False)\<rparr> else g0);
          org = origin dmn;
          dx0 = fst (worldSize dmn) / real_of_int (max 1 (int nx0 - 1));
          dy0 = snd (worldSize dmn) / real_of_int (max 1 (int ny0 - 1))
      in if kind shape = ''circle'' then
           (let r = max 0 (case radius shape of None \<Rightarrow> 0 | Some v \<Rightarrow> v)
            in if r \<le> 0 then g
               else fold (\<lambda>(x, y) gr.
                      if circle_member org dx0 dy0 (center shape) r x y
                      then assign_cell epsVal sigVal isMetal (nat (y * int nx0 + x)) gr
                      else gr)
                    (bbox_cells org dx0 dy0 nx0 ny0 (center shape) r) g)
         else if kind shape = ''rectangle'' then
           (case shape_size shape of
              None \<Rightarrow> g
            | Some (width, height) \<Rightarrow>
                (let halfW = width * 0.5;
                     halfH = height * 0.5
                 in if halfW \<le> 0 \<or> halfH \<le> 0 then g
                    else
                      (let angle = ((case angles_z shape of None \<Rightarrow> 0 | Some v \<Rightarrow> v) * pi) / 180;
                           r = sqrt (halfW * halfW + halfH * halfH)
                       in fold (\<lambda>(x, y) gr.
                            if rect_member org dx0 dy0 (center shape) halfW halfH angle x y
                            then assign_cell epsVal sigVal isMetal (nat (y * int nx0 + x)) gr
                            else gr)
                          (bbox_cells org dx0 dy0 nx0 ny0 (center shape) r) g)))
         else g)"

definition buildMaterialGrids :: "domain \<Rightarrow> nat \<Rightarrow> nat \<Rightarrow> shape_object list \<Rightarrow> material_grids option" where
  "buildMaterialGrids dmn nx0 ny0 shapes =
     (if shapes = [] then None
      else Some (fold (paint_shape dmn nx0 ny0) shapes
                  \<lparr> mg_epsR = replicate (nx0 * ny0) 1,
                    mg_sigma = replicate (nx0 * ny0) 0,
                    mg_metalMask = None \<rparr>))"

definition setBarrierFromShapes :: "shape_object list \<Rightarrow> em_solver \<Rightarrow> em_solver" where
  "setBarrierFromShapes shapes s =
     (case buildMaterialGrids (solver_domain s) (nx s) (ny s) shapes of
        None \<Rightarrow> s\<lparr>epsRGrid := replicate (length (epsRGrid s)) 1,
                  sigmaGrid := replicate (length (sigmaGrid s)) 0,
                  metalMask := None\<rparr>
      | Some grids \<Rightarrow> s\<lparr>epsRGrid := mg_epsR grids,
                        sigmaGrid := mg_sigma grids,
                        metalMask := mg_metalMask grids\<rparr>)"

section \<open>One fixed step\<close>

text \<open>
  \<^verbatim>\<open>#advance(dt)\<close> works in place on the arrays of the solver. Each block of the
  method is one function on the solver state, in the order of the source; the loops are
  folds over the indices they run through.
\<close>

definition zero_metal :: "em_solver \<Rightarrow> em_solver" where
  "zero_metal s =
     (case metalMask s of
        None \<Rightarrow> s
      | Some metal \<Rightarrow>
          fold (\<lambda>i st. if metal ! i
                        then st\<lparr>ex := (ex st)[i := 0], ey := (ey st)[i := 0], hz := (hz st)[i := 0]\<rparr>
                        else st)
               [0..<length metal] s)"

definition sigmaE_at :: "em_solver \<Rightarrow> nat \<Rightarrow> real" where
  "sigmaE_at s idx =
     (let sigmaMat = sigmaGrid s ! idx
      in (case pmlSigma s of None \<Rightarrow> 0 | Some sg \<Rightarrow> sg ! idx) + sigmaMat + loss s)"

definition hz_cell :: "real \<Rightarrow> nat \<Rightarrow> em_solver \<Rightarrow> em_solver" where
  "hz_cell dtv idx s =
     (if mask_at (metalMask s) idx then s
      else
        let invDx = 1 / max 0.000000001 (dx s);
            invDy = 1 / max 0.000000001 (dy s);
            dtOverMu = dtv / mu s;
            dEx_dy = (ex s ! (idx + nx s) - ex s ! idx) * invDy;
            dEy_dx = (ey s ! (idx + 1) - ey s ! idx) * invDx;
            curlE = dEx_dy - dEy_dx;
            epsCell = eps s * epsRGrid s ! idx;
            sigmaE = sigmaE_at s idx;
            sigmaM = sigmaE * (mu s / epsCell);
            denom = 1 + (sigmaM * dtv) / (2 * mu s);
            ch1 = (1 - (sigmaM * dtv) / (2 * mu s)) / denom;
            ch2 = dtOverMu / denom
        in s\<lparr>hz := (hz s)[idx := ch1 * hz s ! idx + ch2 * curlE]\<rparr>)"

definition update_hz :: "real \<Rightarrow> em_solver \<Rightarrow> em_solver" where
  "update_hz dtv s =
     fold (\<lambda>y. fold (\<lambda>x. hz_cell dtv (y * nx s + x)) [0..<nx s - 1]) [0..<ny s - 1] s"

text \<open>The first injection block: every active source, into \<open>Hz\<close>, with a sine.\<close>

definition inject_hz_cell :: "real \<Rightarrow> active_source \<Rightarrow> em_solver \<Rightarrow> em_solver" where
  "inject_hz_cell t source s =
     (let signal = amplitude source * sin (TAU * frequency source * t + phase source)
      in s\<lparr>hz := (hz s)[index source := hz s ! index source + signal]\<rparr>)"

definition inject_hz :: "em_solver \<Rightarrow> em_solver" where
  "inject_hz s = fold (inject_hz_cell (time s)) (sources s) s"

definition e_cell :: "real \<Rightarrow> nat \<Rightarrow> em_solver \<Rightarrow> em_solver" where
  "e_cell dtv idx s =
     (if mask_at (metalMask s) idx then s
      else
        let invDx = 1 / max 0.000000001 (dx s);
            invDy = 1 / max 0.000000001 (dy s);
            dHz_dy = (hz s ! idx - hz s ! (idx - nx s)) * invDy;
            dHz_dx = (hz s ! idx - hz s ! (idx - 1)) * invDx;
            epsCell = eps s * epsRGrid s ! idx;
            dtOverEps = dtv / epsCell;
            sigmaE = sigmaE_at s idx;
            denom = 1 + (sigmaE * dtv) / (2 * epsCell);
            ce1 = (1 - (sigmaE * dtv) / (2 * epsCell)) / denom;
            ce2 = dtOverEps / denom
        in s\<lparr>ex := (ex s)[idx := ce1 * ex s ! idx + ce2 * dHz_dy],
             ey := (ey s)[idx := ce1 * ey s ! idx - ce2 * dHz_dx]\<rparr>)"

definition update_e :: "real \<Rightarrow> em_solver \<Rightarrow> em_solver" where
  "update_e dtv s =
     fold (\<lambda>y. fold (\<lambda>x. e_cell dtv (y * nx s + x)) [1..<nx s - 1]) [1..<ny s - 1] s"

text \<open>The second injection block: the selected component, soft or hard.\<close>

definition inject_source :: "real \<Rightarrow> active_source \<Rightarrow> em_solver \<Rightarrow> em_solver" where
  "inject_source t source s =
     (let idx = index source
      in if mask_at (metalMask s) idx then s
         else if mask_at (pmlMask s) idx then s
         else
           let sv = amplitude source * evalSourceSignal source t;
               inj = injection source
           in case excite source of
                ExciteHz \<Rightarrow>
                  (if inj = Hard then s\<lparr>hz := (hz s)[idx := sv]\<rparr>
                   else s\<lparr>hz := (hz s)[idx := hz s ! idx + sv]\<rparr>)
              | ExciteEx \<Rightarrow>
                  (if inj = Hard then s\<lparr>ex := (ex s)[idx := sv]\<rparr>
                   else s\<lparr>ex := (ex s)[idx := ex s ! idx + sv]\<rparr>)
              | ExciteEy \<Rightarrow>
                  (if inj = Hard then s\<lparr>ey := (ey s)[idx := sv]\<rparr>
                   else s\<lparr>ey := (ey s)[idx := ey s ! idx + sv]\<rparr>)
              | ExciteE \<Rightarrow>
                  (let a = (polarizationAngle source * pi) / 180;
                       sx = sv * cos a;
                       sy = sv * sin a
                   in if inj = Hard
                      then s\<lparr>ex := (ex s)[idx := sx], ey := (ey s)[idx := sy]\<rparr>
                      else s\<lparr>ex := (ex s)[idx := ex s ! idx + sx],
                             ey := (ey s)[idx := ey s ! idx + sy]\<rparr>))"

definition inject_sources :: "em_solver \<Rightarrow> em_solver" where
  "inject_sources s = fold (inject_source (time s)) (sources s) s"

definition zero_cell :: "nat \<Rightarrow> em_solver \<Rightarrow> em_solver" where
  "zero_cell i s = s\<lparr>ex := (ex s)[i := 0], ey := (ey s)[i := 0], hz := (hz s)[i := 0]\<rparr>"

definition zero_edges :: "em_solver \<Rightarrow> em_solver" where
  "zero_edges s =
     (let s1 = fold (\<lambda>x st. zero_cell ((ny s - 1) * nx s + x) (zero_cell x st)) [0..<nx s] s
      in fold (\<lambda>y st. zero_cell (y * nx s + nx s - 1) (zero_cell (y * nx s) st)) [0..<ny s] s1)"

text \<open>
  The magnitude loop carries the solver (its three output arrays) and the running
  \<^verbatim>\<open>max\<close> and \<^verbatim>\<open>sum\<close>.
\<close>

definition magnitude_cell :: "real \<Rightarrow> nat \<Rightarrow> em_solver \<times> real \<times> real \<Rightarrow> em_solver \<times> real \<times> real" where
  "magnitude_cell alpha i acc =
     (case acc of (s, mx, sm) \<Rightarrow>
        if mask_at (pmlMask s) i
        then (s\<lparr>avgPower := (avgPower s)[i := 0],
                 avgMagnitude := (avgMagnitude s)[i := 0],
                 instantaneous := (instantaneous s)[i := 0]\<rparr>, mx, sm)
        else
          let e2 = ex s ! i * ex s ! i + ey s ! i * ey s ! i;
              val = sqrt e2;
              power = val * val;
              nextAvg = avgPower s ! i + alpha * (power - avgPower s ! i)
          in (s\<lparr>avgPower := (avgPower s)[i := nextAvg],
                 avgMagnitude := (avgMagnitude s)[i := sqrt nextAvg],
                 instantaneous := (instantaneous s)[i := val]\<rparr>,
              (if val > mx then val else mx), sm + val))"

definition compute_stats :: "real \<Rightarrow> em_solver \<Rightarrow> em_solver" where
  "compute_stats dtv s =
     (let alpha = min 1 (dtv / avgTau s)
      in case fold (magnitude_cell alpha) [0..<length (instantaneous s)] (s, 0, 0) of
           (s', mx, sm) \<Rightarrow>
             s'\<lparr>time := time s' + dtv,
                stats := \<lparr> stats_time = time s' + dtv,
                           maxInstantaneous = mx,
                           meanInstantaneous = sm / real (length (instantaneous s')) \<rparr>\<rparr>)"

definition advance :: "real \<Rightarrow> em_solver \<Rightarrow> em_solver" where
  "advance dtv s =
     compute_stats dtv (zero_edges (inject_sources (update_e dtv (inject_hz
       (update_hz dtv (zero_metal s))))))"

subsection \<open>What a fixed step leaves alone\<close>

text \<open>
  No block of \<^verbatim>\<open>#advance\<close> touches the configuration, the masks, the material
  grids, the source list or the accumulator, and none changes the length of an array.
\<close>

definition same_setup :: "em_solver \<Rightarrow> em_solver \<Rightarrow> bool" where
  "same_setup s s' \<longleftrightarrow>
     nx s' = nx s \<and> ny s' = ny s \<and> solver_domain s' = solver_domain s \<and>
     dx s' = dx s \<and> dy s' = dy s \<and> dt s' = dt s \<and> avgTau s' = avgTau s \<and>
     loss s' = loss s \<and> mu s' = mu s \<and> eps s' = eps s \<and> sources s' = sources s \<and>
     epsRGrid s' = epsRGrid s \<and> sigmaGrid s' = sigmaGrid s \<and> metalMask s' = metalMask s \<and>
     accumulator s' = accumulator s \<and> maxSubstepsPerFrame s' = maxSubstepsPerFrame s \<and>
     pmlWidth s' = pmlWidth s \<and> pmlSigma s' = pmlSigma s \<and> pmlMask s' = pmlMask s \<and>
     length (ex s') = length (ex s) \<and> length (ey s') = length (ey s) \<and>
     length (hz s') = length (hz s) \<and>
     length (instantaneous s') = length (instantaneous s) \<and>
     length (avgPower s') = length (avgPower s) \<and>
     length (avgMagnitude s') = length (avgMagnitude s)"

lemma same_setup_refl: "same_setup s s"
  by (simp add: same_setup_def)

lemma same_setup_trans: "same_setup s s' \<Longrightarrow> same_setup s' s'' \<Longrightarrow> same_setup s s''"
  by (simp add: same_setup_def)

lemma fold_pres:
  assumes "\<And>x st. P st \<Longrightarrow> P (f x st)" and "P s"
  shows "P (fold f xs s)"
  using assms(2) by (induction xs arbitrary: s) (auto intro: assms(1))

lemma fold_pres_set:
  assumes "\<And>x st. x \<in> set xs \<Longrightarrow> P st \<Longrightarrow> P (f x st)" and "P s"
  shows "P (fold f xs s)"
  using assms by (induction xs arbitrary: s) auto

lemma zero_metal_setup: "same_setup s (zero_metal s)"
proof (cases "metalMask s")
  case None
  then show ?thesis by (simp add: zero_metal_def same_setup_refl)
next
  case (Some metal)
  have "same_setup s (fold (\<lambda>i st. if metal ! i
            then st\<lparr>ex := (ex st)[i := 0], ey := (ey st)[i := 0], hz := (hz st)[i := 0]\<rparr>
            else st) [0..<length metal] s)"
    by (rule fold_pres) (simp_all add: same_setup_def)
  with Some show ?thesis by (simp add: zero_metal_def)
qed

lemma hz_cell_setup: "same_setup s st \<Longrightarrow> same_setup s (hz_cell dtv idx st)"
  by (simp add: same_setup_def hz_cell_def Let_def)

lemma update_hz_setup: "same_setup s (update_hz dtv s)"
  unfolding update_hz_def
  by (rule fold_pres, rule fold_pres, erule hz_cell_setup, assumption, rule same_setup_refl)

lemma inject_hz_cell_setup: "same_setup s st \<Longrightarrow> same_setup s (inject_hz_cell t source st)"
  by (simp add: same_setup_def inject_hz_cell_def Let_def)

lemma inject_hz_setup: "same_setup s (inject_hz s)"
  unfolding inject_hz_def
  by (rule fold_pres, erule inject_hz_cell_setup, rule same_setup_refl)

lemma e_cell_setup: "same_setup s st \<Longrightarrow> same_setup s (e_cell dtv idx st)"
  by (simp add: same_setup_def e_cell_def Let_def)

lemma update_e_setup: "same_setup s (update_e dtv s)"
  unfolding update_e_def
  by (rule fold_pres, rule fold_pres, erule e_cell_setup, assumption, rule same_setup_refl)

lemma inject_source_setup: "same_setup s st \<Longrightarrow> same_setup s (inject_source t source st)"
  by (simp add: same_setup_def inject_source_def Let_def split: excite.splits)

lemma inject_sources_setup: "same_setup s (inject_sources s)"
  unfolding inject_sources_def
  by (rule fold_pres, erule inject_source_setup, rule same_setup_refl)

lemma zero_cell_setup: "same_setup s st \<Longrightarrow> same_setup s (zero_cell i st)"
  by (simp add: same_setup_def zero_cell_def)

lemma zero_edges_setup: "same_setup s (zero_edges s)"
  unfolding zero_edges_def Let_def
  by (rule fold_pres, intro zero_cell_setup, assumption,
      rule fold_pres, intro zero_cell_setup, assumption, rule same_setup_refl)

lemma magnitude_cell_setup:
  "same_setup s (fst acc) \<Longrightarrow> same_setup s (fst (magnitude_cell alpha i acc))"
  by (cases acc) (simp add: same_setup_def magnitude_cell_def Let_def)

lemma compute_stats_setup: "same_setup s (compute_stats dtv s)"
proof -
  define r where "r = fold (magnitude_cell (min 1 (dtv / avgTau s))) [0..<length (instantaneous s)] (s, 0, 0)"
  have "same_setup s (fst r)"
    unfolding r_def by (rule fold_pres, erule magnitude_cell_setup) (simp add: same_setup_refl)
  then show ?thesis
    by (cases r) (simp add: compute_stats_def Let_def r_def [symmetric] same_setup_def)
qed

lemma advance_setup: "same_setup s (advance dtv s)"
  unfolding advance_def
  by (rule same_setup_trans [OF zero_metal_setup],
      rule same_setup_trans [OF update_hz_setup],
      rule same_setup_trans [OF inject_hz_setup],
      rule same_setup_trans [OF update_e_setup],
      rule same_setup_trans [OF inject_sources_setup],
      rule same_setup_trans [OF zero_edges_setup],
      rule compute_stats_setup)

section \<open>Stepping and resetting\<close>

text \<open>The body of the loop of \<^verbatim>\<open>step\<close>: one advance, then one \<open>dt\<close> off the accumulator.\<close>

definition substep :: "real \<Rightarrow> em_solver \<Rightarrow> em_solver" where
  "substep dtv s = (let s' = advance dtv s in s'\<lparr>accumulator := accumulator s' - dtv\<rparr>)"

lemma substep_maxSubsteps [simp]: "maxSubstepsPerFrame (substep dtv s) = maxSubstepsPerFrame s"
  using advance_setup [of s dtv] by (simp add: substep_def Let_def same_setup_def)

function step_loop :: "real \<Rightarrow> em_solver \<Rightarrow> nat \<Rightarrow> em_solver \<times> nat" where
  "step_loop dtv s substepCount =
     (if accumulator s \<ge> dtv \<and> substepCount < maxSubstepsPerFrame s
      then step_loop dtv (substep dtv s) (substepCount + 1)
      else (s, substepCount))"
  by pat_completeness auto
termination
  by (relation "measure (\<lambda>(dtv, s, c). maxSubstepsPerFrame s - c)") auto

declare step_loop.simps [simp del]

definition step_run :: "real \<Rightarrow> em_solver \<Rightarrow> em_solver \<times> nat" where
  "step_run d s = (let s1 = s\<lparr>accumulator := accumulator s + d\<rparr> in step_loop (dt s1) s1 0)"

definition clamp_accumulator :: "nat \<Rightarrow> em_solver \<Rightarrow> em_solver" where
  "clamp_accumulator substepCount s =
     (let dtv = dt s
      in if accumulator s \<ge> dtv \<and> substepCount \<ge> maxSubstepsPerFrame s
         then (let maxAccumulator = dtv * real (maxSubstepsPerFrame s)
               in if accumulator s > maxAccumulator
                  then s\<lparr>accumulator := maxAccumulator\<rparr> else s)
         else s)"

definition step :: "jsnum \<Rightarrow> em_solver \<Rightarrow> em_solver" where
  "step deltaSeconds s =
     (case deltaSeconds of
        Num d \<Rightarrow>
          if d \<le> 0 then s
          else (case step_run d s of (s2, substepCount) \<Rightarrow> clamp_accumulator substepCount s2)
      | _ \<Rightarrow> s)"

text \<open>The number of fixed advances that a call of \<^verbatim>\<open>step\<close> executes.\<close>

definition advances_run :: "jsnum \<Rightarrow> em_solver \<Rightarrow> nat" where
  "advances_run deltaSeconds s =
     (case deltaSeconds of
        Num d \<Rightarrow> if d \<le> 0 then 0 else snd (step_run d s)
      | _ \<Rightarrow> 0)"

definition reset :: "em_solver \<Rightarrow> em_solver" where
  "reset s =
     s\<lparr>time := 0,
       accumulator := 0,
       stats := (stats s)\<lparr>stats_time := 0, maxInstantaneous := 0, meanInstantaneous := 0\<rparr>,
       ex := replicate (length (ex s)) 0,
       ey := replicate (length (ey s)) 0,
       hz := replicate (length (hz s)) 0,
       instantaneous := replicate (length (instantaneous s)) 0,
       avgPower := replicate (length (avgPower s)) 0,
       avgMagnitude := replicate (length (avgMagnitude s)) 0\<rparr>"

text \<open>
  The states a solver built from \<open>config\<close> can be in: after construction, and after any
  call of a public method.
\<close>

inductive reachable :: "solver_config \<Rightarrow> em_solver \<Rightarrow> bool" for config where
  constructed: "reachable config (EMSolver2D config)"
| after_step: "reachable config s \<Longrightarrow> reachable config (step deltaSeconds s)"
| after_reset: "reachable config s \<Longrightarrow> reachable config (reset s)"
| after_setSources: "reachable config s \<Longrightarrow> reachable config (setSources srcs s)"
| after_setBarrier: "reachable config s \<Longrightarrow> reachable config (setBarrierFromShapes shapes s)"

lemma substep_accumulator: "accumulator (substep dtv s) = accumulator s - dtv"
  using advance_setup [of s dtv] by (simp add: substep_def Let_def same_setup_def)

lemma substep_dt: "dt (substep dtv s) = dt s"
  using advance_setup [of s dtv] by (simp add: substep_def Let_def same_setup_def)

lemma substeps_accumulator:
  "accumulator ((substep dtv ^^ k) s) = accumulator s - real k * dtv"
  by (induction k) (simp_all add: substep_accumulator algebra_simps)

lemma substeps_dt: "dt ((substep dtv ^^ k) s) = dt s"
  by (induction k) (simp_all add: substep_dt)

lemma substeps_maxSubsteps:
  "maxSubstepsPerFrame ((substep dtv ^^ k) s) = maxSubstepsPerFrame s"
  by (induction k) simp_all

lemma step_loop_unfold:
  "step_loop dtv s c = (s', c') \<Longrightarrow> c \<le> maxSubstepsPerFrame s \<Longrightarrow>
     c \<le> c' \<and> c' \<le> maxSubstepsPerFrame s \<and> s' = (substep dtv ^^ (c' - c)) s \<and>
     (\<forall>j < c' - c. dtv \<le> accumulator ((substep dtv ^^ j) s)) \<and>
     (c' = maxSubstepsPerFrame s \<or> accumulator s' < dtv)"
proof (induction dtv s c rule: step_loop.induct)
  case (1 dtv s c)
  show ?case
  proof (cases "accumulator s \<ge> dtv \<and> c < maxSubstepsPerFrame s")
    case True
    with "1.prems" have run: "step_loop dtv (substep dtv s) (c + 1) = (s', c')"
      by (simp add: step_loop.simps [of dtv s c])
    from True have le: "c + 1 \<le> maxSubstepsPerFrame (substep dtv s)" by simp
    note ih = "1.IH" [OF True run le]
    from ih have c': "c + 1 \<le> c'" "c' \<le> maxSubstepsPerFrame s" by simp_all
    then have diff: "c' - c = Suc (c' - (c + 1))" by simp
    have s': "s' = (substep dtv ^^ (c' - c)) s"
      using ih by (simp add: diff funpow_swap1)
    have guard: "\<forall>j < c' - c. dtv \<le> accumulator ((substep dtv ^^ j) s)"
    proof (intro allI impI)
      fix j assume j: "j < c' - c"
      show "dtv \<le> accumulator ((substep dtv ^^ j) s)"
      proof (cases j)
        case 0
        with True show ?thesis by simp
      next
        case (Suc i)
        with j have "i < c' - (c + 1)" by simp
        with ih have "dtv \<le> accumulator ((substep dtv ^^ i) (substep dtv s))" by blast
        with Suc show ?thesis by (simp add: funpow_swap1)
      qed
    qed
    from ih have "c' = maxSubstepsPerFrame (substep dtv s) \<or> accumulator s' < dtv" by blast
    then have "c' = maxSubstepsPerFrame s \<or> accumulator s' < dtv" by simp
    with c' s' guard show ?thesis by simp
  next
    case False
    with "1.prems" have "s' = s" "c' = c"
      by (simp_all add: step_loop.simps [of dtv s c])
    with False "1.prems" show ?thesis by auto
  qed
qed

definition same_setup_acc :: "em_solver \<Rightarrow> em_solver \<Rightarrow> bool" where
  "same_setup_acc s s' \<longleftrightarrow> same_setup (s\<lparr>accumulator := 0\<rparr>) (s'\<lparr>accumulator := 0\<rparr>)"

lemma same_setup_acc_refl: "same_setup_acc s s"
  by (simp add: same_setup_acc_def same_setup_refl)

lemma same_setup_acc_trans:
  "same_setup_acc s s' \<Longrightarrow> same_setup_acc s' s'' \<Longrightarrow> same_setup_acc s s''"
  unfolding same_setup_acc_def by (rule same_setup_trans)

lemma substep_setup_acc: "same_setup_acc s (substep dtv s)"
  using advance_setup [of s dtv]
  by (simp add: same_setup_acc_def substep_def Let_def same_setup_def)

lemma substeps_setup_acc: "same_setup_acc s ((substep dtv ^^ k) s)"
  by (induction k) (auto intro: same_setup_acc_refl same_setup_acc_trans substep_setup_acc)

lemma clamp_accumulator_setup_acc: "same_setup_acc s (clamp_accumulator c s)"
  by (simp add: same_setup_acc_def clamp_accumulator_def Let_def same_setup_def)

lemma step_run_funpow:
  assumes "step_run d s = (s2, c)"
  shows "c \<le> maxSubstepsPerFrame s \<and>
         s2 = (substep (dt s) ^^ c) (s\<lparr>accumulator := accumulator s + d\<rparr>) \<and>
         (\<forall>j < c. dt s \<le> accumulator s + d - real j * dt s) \<and>
         (c = maxSubstepsPerFrame s \<or> accumulator s + d - real c * dt s < dt s)"
proof -
  let ?s1 = "s\<lparr>accumulator := accumulator s + d\<rparr>"
  from assms have run: "step_loop (dt s) ?s1 0 = (s2, c)"
    by (simp add: step_run_def Let_def)
  have "0 \<le> maxSubstepsPerFrame ?s1" by simp
  from step_loop_unfold [OF run this] show ?thesis
    by (auto simp add: substeps_accumulator)
qed

lemma step_setup_acc: "same_setup_acc s (step deltaSeconds s)"
proof (cases deltaSeconds)
  case (Num d)
  show ?thesis
  proof (cases "d \<le> 0")
    case True
    with Num show ?thesis by (simp add: step_def same_setup_acc_refl)
  next
    case False
    obtain s2 c where run: "step_run d s = (s2, c)" by (cases "step_run d s")
    from step_run_funpow [OF run]
    have "s2 = (substep (dt s) ^^ c) (s\<lparr>accumulator := accumulator s + d\<rparr>)" by simp
    then have "same_setup_acc (s\<lparr>accumulator := accumulator s + d\<rparr>) s2"
      by (simp add: substeps_setup_acc)
    moreover have "same_setup_acc s (s\<lparr>accumulator := accumulator s + d\<rparr>)"
      by (simp add: same_setup_acc_def same_setup_def)
    ultimately have "same_setup_acc s (clamp_accumulator c s2)"
      by (blast intro: same_setup_acc_trans clamp_accumulator_setup_acc)
    with Num False run show ?thesis by (simp add: step_def)
  qed
qed (simp_all add: step_def same_setup_acc_refl)

definition solver_inv :: "solver_config \<Rightarrow> em_solver \<Rightarrow> bool" where
  "solver_inv config s \<longleftrightarrow>
     same_setup_acc ((EMSolver2D config)\<lparr>sources := sources s, epsRGrid := epsRGrid s,
        sigmaGrid := sigmaGrid s, metalMask := metalMask s\<rparr>) s \<and>
     length (epsRGrid s) = nx s * ny s \<and> length (sigmaGrid s) = nx s * ny s \<and>
     (case metalMask s of None \<Rightarrow> True | Some m \<Rightarrow> length m = nx s * ny s)"

lemma assign_cell_lengths:
  "length (mg_epsR (assign_cell e sg b i g)) = length (mg_epsR g) \<and>
   length (mg_sigma (assign_cell e sg b i g)) = length (mg_sigma g) \<and>
   (case mg_metalMask (assign_cell e sg b i g) of None \<Rightarrow> mg_metalMask g = None
    | Some m \<Rightarrow> (case mg_metalMask g of None \<Rightarrow> False | Some m' \<Rightarrow> length m = length m'))"
  by (simp add: assign_cell_def split: option.splits)

definition grids_sized :: "nat \<Rightarrow> material_grids \<Rightarrow> bool" where
  "grids_sized n g \<longleftrightarrow>
     length (mg_epsR g) = n \<and> length (mg_sigma g) = n \<and>
     (case mg_metalMask g of None \<Rightarrow> True | Some m \<Rightarrow> length m = n)"

lemma assign_cell_sized: "grids_sized n g \<Longrightarrow> grids_sized n (assign_cell e sg b i g)"
  by (simp add: grids_sized_def assign_cell_def split: option.splits)

lemma paint_shape_sized:
  assumes "grids_sized (nx0 * ny0) g"
  shows "grids_sized (nx0 * ny0) (paint_shape dmn nx0 ny0 shape g)"
proof -
  define g1 where "g1 = (if isMetal_of shape \<and> mg_metalMask g = None
            then g\<lparr>mg_metalMask := Some (replicate (nx0 * ny0) False)\<rparr> else g)"
  have g1: "grids_sized (nx0 * ny0) g1"
    using assms by (simp add: grids_sized_def g1_def)
  have fold_ok: "grids_sized (nx0 * ny0)
      (fold (\<lambda>(x, y) gr. if mem x y then assign_cell e sg b (nat (y * int nx0 + x)) gr else gr) cells g1)"
    for mem e sg b cells
  proof (rule fold_pres)
    show "grids_sized (nx0 * ny0) g1" by (rule g1)
  next
    fix c :: "int \<times> int" and st
    assume "grids_sized (nx0 * ny0) st"
    then show "grids_sized (nx0 * ny0)
       ((\<lambda>(x, y) gr. if mem x y then assign_cell e sg b (nat (y * int nx0 + x)) gr else gr) c st)"
      by (cases c) (simp add: assign_cell_sized)
  qed
  show ?thesis
    unfolding paint_shape_def Let_def g1_def [symmetric]
    using g1 fold_ok by (simp split: option.splits prod.splits)
qed

lemma buildMaterialGrids_sized:
  assumes "buildMaterialGrids dmn nx0 ny0 shapes = Some g"
  shows "grids_sized (nx0 * ny0) g"
proof -
  have "grids_sized (nx0 * ny0) (fold (paint_shape dmn nx0 ny0) shapes
          \<lparr> mg_epsR = replicate (nx0 * ny0) 1, mg_sigma = replicate (nx0 * ny0) 0,
            mg_metalMask = None \<rparr>)"
  proof (rule fold_pres)
    show "grids_sized (nx0 * ny0) \<lparr> mg_epsR = replicate (nx0 * ny0) 1,
            mg_sigma = replicate (nx0 * ny0) 0, mg_metalMask = None \<rparr>"
      by (simp add: grids_sized_def)
  qed (rule paint_shape_sized)
  with assms show ?thesis by (auto simp: buildMaterialGrids_def split: if_splits)
qed

lemma solver_inv_constructed: "solver_inv config (EMSolver2D config)"
  by (simp add: solver_inv_def same_setup_acc_def same_setup_def EMSolver2D_def)

lemma solver_inv_step: "solver_inv config s \<Longrightarrow> solver_inv config (step deltaSeconds s)"
  using step_setup_acc [of s deltaSeconds]
  by (simp add: solver_inv_def same_setup_acc_def same_setup_def split: option.splits)

lemma solver_inv_reset: "solver_inv config s \<Longrightarrow> solver_inv config (reset s)"
  by (simp add: solver_inv_def same_setup_acc_def same_setup_def reset_def split: option.splits)

lemma solver_inv_setSources: "solver_inv config s \<Longrightarrow> solver_inv config (setSources srcs s)"
  by (simp add: solver_inv_def same_setup_acc_def same_setup_def setSources_def split: option.splits)

lemma solver_inv_setBarrier:
  assumes "solver_inv config s"
  shows "solver_inv config (setBarrierFromShapes shapes s)"
proof (cases "buildMaterialGrids (solver_domain s) (nx s) (ny s) shapes")
  case None
  with assms show ?thesis
    by (simp add: solver_inv_def same_setup_acc_def same_setup_def setBarrierFromShapes_def)
next
  case (Some g)
  from buildMaterialGrids_sized [OF Some] assms Some show ?thesis
    by (simp add: solver_inv_def same_setup_acc_def same_setup_def setBarrierFromShapes_def
          grids_sized_def split: option.splits)
qed

lemma reachable_inv: "reachable config s \<Longrightarrow> solver_inv config s"
  by (induction rule: reachable.induct)
     (auto intro: solver_inv_constructed solver_inv_step solver_inv_reset
        solver_inv_setSources solver_inv_setBarrier)

section \<open>Construction: the fixed time step\<close>

text \<open>A small configuration for concrete runs: a 4 by 4 grid of unit cells, speed 1.\<close>

definition demo_config :: solver_config where
  "demo_config =
     \<lparr> cfg_domain = \<lparr> worldSize = (3, 3), grid = (4, 4), origin = (0, 0) \<rparr>,
       cfg_solver = \<lparr> speed = Num 1, attenuation = Some 0.1 \<rparr>,
       cfg_avgTau = None, cfg_cfl = None, cfg_pmlWidth = None \<rparr>"

lemma waveSpeed_of_bounds: "0.05 \<le> waveSpeed_of solver \<and> waveSpeed_of solver \<le> 50"
  by (simp add: waveSpeed_of_def clamp_def Let_def split: jsnum.splits)

lemma nx_of_ge2: "2 \<le> nx_of config" and ny_of_ge2: "2 \<le> ny_of config"
  by (simp_all add: nx_of_def ny_of_def)

lemma dx_of_eq: "dx_of config = fst (worldSize (cfg_domain config)) / real (nx_of config - 1)"
  using nx_of_ge2 [of config] by (simp add: dx_of_def max_def of_nat_diff)

lemma dy_of_eq: "dy_of config = snd (worldSize (cfg_domain config)) / real (ny_of config - 1)"
  using ny_of_ge2 [of config] by (simp add: dy_of_def max_def of_nat_diff)

lemma dx_of_pos: "0 < fst (worldSize (cfg_domain config)) \<Longrightarrow> 0 < dx_of config"
  using nx_of_ge2 [of config] by (simp add: dx_of_eq)

lemma dy_of_pos: "0 < snd (worldSize (cfg_domain config)) \<Longrightarrow> 0 < dy_of config"
  using ny_of_ge2 [of config] by (simp add: dy_of_eq)

lemma dt_of_pos:
  assumes "0 < fst (worldSize (cfg_domain config))" and "0 < snd (worldSize (cfg_domain config))"
    and "0 < cfl_of config"
  shows "0 < dt_of config"
proof -
  have "0 < waveSpeed_of (cfg_solver config)"
    using waveSpeed_of_bounds [of "cfg_solver config"] by simp
  moreover have "0 < min (dx_of config) (dy_of config)"
    using dx_of_pos dy_of_pos assms by simp
  ultimately show ?thesis
    using assms(3) by (simp add: dt_of_def Let_def)
qed

lemma courant_bound:
  fixes a b c k :: real
  assumes "0 < a" and "0 < b" and "0 < c" and "0 \<le> k"
  shows "c * ((k * min a b) / (c * sqrt 2)) * sqrt (1 / a\<^sup>2 + 1 / b\<^sup>2) \<le> k"
proof -
  define m where "m = min a b"
  define q where "q = k * m / sqrt 2"
  have m: "0 < m" "m \<le> a" "m \<le> b" using assms by (simp_all add: m_def)
  have "1 / a\<^sup>2 \<le> 1 / m\<^sup>2" using m by (simp add: frac_le power_mono)
  moreover have "1 / b\<^sup>2 \<le> 1 / m\<^sup>2" using m by (simp add: frac_le power_mono)
  ultimately have "1 / a\<^sup>2 + 1 / b\<^sup>2 \<le> 2 / m\<^sup>2" by simp
  then have "sqrt (1 / a\<^sup>2 + 1 / b\<^sup>2) \<le> sqrt (2 / m\<^sup>2)" by simp
  also have "sqrt (2 / m\<^sup>2) = sqrt 2 / m" using m by (simp add: real_sqrt_divide)
  finally have le: "sqrt (1 / a\<^sup>2 + 1 / b\<^sup>2) \<le> sqrt 2 / m" .
  have q: "0 \<le> q" using assms m by (simp add: q_def)
  have "c * ((k * m) / (c * sqrt 2)) = q" using assms(3) by (simp add: q_def)
  then have "c * ((k * m) / (c * sqrt 2)) * sqrt (1 / a\<^sup>2 + 1 / b\<^sup>2)
      = q * sqrt (1 / a\<^sup>2 + 1 / b\<^sup>2)" by simp
  also have "\<dots> \<le> q * (sqrt 2 / m)" by (rule mult_left_mono [OF le q])
  also have "\<dots> = k" using m by (simp add: q_def)
  finally show ?thesis by (simp add: m_def)
qed

text \<open>
  Over the reals, a solver built from a domain of positive extent with the default Courant
  factor has the time step \<open>0.45 * min dx dy / (waveSpeed * sqrt 2)\<close> and a Courant number
  \<open>waveSpeed * dt * sqrt (1 / dx\<^sup>2 + 1 / dy\<^sup>2)\<close> of at most \<open>0.45\<close>. On square cells the
  Courant number is the factor itself: the bound leaves no room for the rounding of the
  constructor's double arithmetic, which the rest of this section models.
\<close>

lemma courant_bound_square:
  fixes a c k :: real
  assumes "0 < a" and "0 < c"
  shows "c * ((k * min a a) / (c * sqrt 2)) * sqrt (1 / a\<^sup>2 + 1 / a\<^sup>2) = k"
proof -
  have "sqrt (1 / a\<^sup>2 + 1 / a\<^sup>2) = sqrt (2 / a\<^sup>2)" by simp
  also have "\<dots> = sqrt 2 / a" using assms(1) by (simp add: real_sqrt_divide)
  finally show ?thesis using assms by simp
qed

lemma time_step_exact:
  assumes "0 < fst (worldSize (cfg_domain config))"
    and "0 < snd (worldSize (cfg_domain config))"
    and "cfg_cfl config = None"
  shows "let s = EMSolver2D config; c = waveSpeed_of (cfg_solver config)
         in 2 \<le> nx s \<and> 2 \<le> ny s \<and> 0.05 \<le> c \<and> c \<le> 50 \<and>
            dx s = fst (worldSize (cfg_domain config)) / real (nx s - 1) \<and>
            dy s = snd (worldSize (cfg_domain config)) / real (ny s - 1) \<and>
            dt s = 0.45 * min (dx s) (dy s) / (c * sqrt 2) \<and>
            c * dt s * sqrt (1 / (dx s)\<^sup>2 + 1 / (dy s)\<^sup>2) \<le> 0.45 \<and>
            (0.45 :: real) < 1"
proof -
  let ?s = "EMSolver2D config" and ?c = "waveSpeed_of (cfg_solver config)"
  have sel: "nx ?s = nx_of config" "ny ?s = ny_of config" "dx ?s = dx_of config"
    "dy ?s = dy_of config" "dt ?s = dt_of config"
    by (simp_all add: EMSolver2D_def)
  have c: "0 < ?c" "0.05 \<le> ?c" "?c \<le> 50"
    using waveSpeed_of_bounds [of "cfg_solver config"] by simp_all
  have cfl: "cfl_of config = 0.45" using assms(3) by (simp add: cfl_of_def)
  have dt: "dt ?s = 0.45 * min (dx ?s) (dy ?s) / (?c * sqrt 2)"
    by (simp add: sel dt_of_def Let_def cfl)
  have "?c * (0.45 * min (dx_of config) (dy_of config) / (?c * sqrt 2))
          * sqrt (1 / (dx_of config)\<^sup>2 + 1 / (dy_of config)\<^sup>2) \<le> 0.45"
    by (rule courant_bound [OF dx_of_pos [OF assms(1)] dy_of_pos [OF assms(2)] c(1)]) simp
  then have stab: "?c * dt ?s * sqrt (1 / (dx ?s)\<^sup>2 + 1 / (dy ?s)\<^sup>2) \<le> 0.45"
    unfolding dt unfolding sel .
  have geo: "2 \<le> nx ?s" "2 \<le> ny ?s"
    "dx ?s = fst (worldSize (cfg_domain config)) / real (nx ?s - 1)"
    "dy ?s = snd (worldSize (cfg_domain config)) / real (ny ?s - 1)"
    unfolding sel by (rule nx_of_ge2 ny_of_ge2 dx_of_eq dy_of_eq)+
  show ?thesis
    unfolding Let_def using geo c(2,3) dt stab by simp
qed

subsection \<open>Rounding to double precision\<close>

text \<open>
  A finite double is \<open>m * 2 ^ e\<close> for an integer \<open>m\<close> of magnitude below \<open>2 ^ 53\<close> and an
  exponent \<open>e\<close> of at least \<open>-1074\<close>. Every arithmetic operation of JavaScript returns
  the double nearest to the exact result, a tie going to the even significand; a decimal
  literal denotes the double nearest to it, and \<^verbatim>\<open>Math.SQRT2\<close> is the double nearest to the
  square root of 2.

  \<open>binade x\<close> is the exponent of the largest power of two that is at most \<open>x\<close>, for
  positive \<open>x\<close>. The doubles between \<open>2 ^ b\<close> and \<open>2 ^ (b + 1)\<close> lie \<open>2 ^ (b - 52)\<close>
  apart, and \<open>2 ^ (- 1074)\<close> apart below \<open>2 ^ (- 1022)\<close>, where the exponent no longer
  follows the argument. \<open>to_double x\<close> is the double nearest to \<open>x\<close>. Overflow is not
  modelled: a result of magnitude \<open>2 ^ 1024\<close> or more, which the machine turns into an
  infinity, stays finite here. The quantities rounded in this section are bounded far
  below that.
\<close>

definition round_even :: "real \<Rightarrow> int" where
  "round_even v =
     (let f = \<lfloor>v\<rfloor>; r = v - of_int f
      in if r < 1 / 2 then f else if 1 / 2 < r then f + 1 else if even f then f else f + 1)"

definition binade :: "real \<Rightarrow> int" where
  "binade x = (if 1 \<le> x then bitlen \<lfloor>x\<rfloor> - 1 else - bitlen (\<lceil>1 / x\<rceil> - 1))"

definition to_double :: "real \<Rightarrow> real" where
  "to_double x =
     (if x = 0 then 0
      else let e = max (binade \<bar>x\<bar>) (- 1022) - 52
           in sgn x * of_int (round_even (\<bar>x\<bar> / 2 powi e)) * 2 powi e)"

lemma round_even_error: "\<bar>of_int (round_even v) - v\<bar> \<le> 1 / 2"
  unfolding round_even_def Let_def by (auto simp: abs_if) linarith+

lemma round_even_eqI:
  assumes "of_int n - 1 / 2 < v" and "v < of_int n + 1 / 2"
  shows "round_even v = n"
proof -
  have "\<bar>of_int (round_even v) - v\<bar> \<le> 1 / 2" by (rule round_even_error)
  with assms have "\<bar>(of_int (round_even v) :: real) - of_int n\<bar> < 1" by linarith
  then have "\<bar>round_even v - n\<bar> < 1"
    by (metis of_int_diff of_int_abs of_int_less_iff of_int_1)
  then show ?thesis by linarith
qed

lemma binade_bounds:
  assumes "0 < x"
  shows "2 powi binade x \<le> x" and "x < 2 powi (binade x + 1)"
proof -
  show "2 powi binade x \<le> x"
  proof (cases "1 \<le> x")
    case True
    then have f: "0 < \<lfloor>x\<rfloor>" by simp
    from bitlen_bounds [OF f] have "2 ^ nat (bitlen \<lfloor>x\<rfloor> - 1) \<le> \<lfloor>x\<rfloor>" ..
    then have "(2::real) ^ nat (bitlen \<lfloor>x\<rfloor> - 1) \<le> of_int \<lfloor>x\<rfloor>"
      by (metis of_int_le_iff of_int_numeral of_int_power)
    also have "\<dots> \<le> x" by simp
    finally have "(2::real) ^ nat (bitlen \<lfloor>x\<rfloor> - 1) \<le> x" .
    moreover have "1 \<le> bitlen \<lfloor>x\<rfloor>" using f by (simp add: bitlen_alt_def)
    ultimately show ?thesis using True by (simp add: binade_def power_int_def)
  next
    case False
    define k where "k = \<lceil>1 / x\<rceil> - 1"
    from False assms have "1 < 1 / x" by simp
    then have k: "0 < k" unfolding k_def by linarith
    from bitlen_bounds [OF k] have "k < 2 ^ nat (bitlen k)" ..
    then have "k + 1 \<le> 2 ^ nat (bitlen k)" by simp
    then have "(of_int (k + 1) :: real) \<le> 2 ^ nat (bitlen k)"
      by (metis of_int_le_iff of_int_numeral of_int_power)
    moreover have "1 / x \<le> of_int (k + 1)" unfolding k_def by simp
    ultimately have "1 / x \<le> 2 ^ nat (bitlen k)" by linarith
    then have "1 / 2 ^ nat (bitlen k) \<le> x"
      using assms by (simp add: field_simps)
    moreover have "1 \<le> bitlen k" using k by (simp add: bitlen_alt_def)
    ultimately show ?thesis using False
      by (simp add: binade_def k_def [symmetric] power_int_def power_one_over)
  qed
  show "x < 2 powi (binade x + 1)"
  proof (cases "1 \<le> x")
    case True
    then have f: "0 < \<lfloor>x\<rfloor>" by simp
    from bitlen_bounds [OF f] have "\<lfloor>x\<rfloor> < 2 ^ nat (bitlen \<lfloor>x\<rfloor>)" ..
    then have "\<lfloor>x\<rfloor> + 1 \<le> 2 ^ nat (bitlen \<lfloor>x\<rfloor>)" by simp
    then have "(of_int (\<lfloor>x\<rfloor> + 1) :: real) \<le> 2 ^ nat (bitlen \<lfloor>x\<rfloor>)"
      by (metis of_int_le_iff of_int_numeral of_int_power)
    moreover have "x < of_int (\<lfloor>x\<rfloor> + 1)" by simp
    ultimately have "x < 2 ^ nat (bitlen \<lfloor>x\<rfloor>)" by linarith
    moreover have "0 \<le> bitlen \<lfloor>x\<rfloor>" by (rule bitlen_nonneg)
    ultimately show ?thesis using True by (simp add: binade_def power_int_def)
  next
    case False
    define k where "k = \<lceil>1 / x\<rceil> - 1"
    from False assms have "1 < 1 / x" by simp
    then have k: "0 < k" unfolding k_def by linarith
    have b1: "1 \<le> bitlen k" using k by (simp add: bitlen_alt_def)
    from bitlen_bounds [OF k] have "2 ^ nat (bitlen k - 1) \<le> k" ..
    then have "(2::real) ^ nat (bitlen k - 1) \<le> of_int k"
      by (metis of_int_le_iff of_int_numeral of_int_power)
    moreover have "of_int k < 1 / x" unfolding k_def by linarith
    ultimately have "(2::real) ^ nat (bitlen k - 1) < 1 / x" by linarith
    then have "x < 1 / 2 ^ nat (bitlen k - 1)"
      using assms by (simp add: field_simps)
    moreover have "2 powi (- bitlen k + 1) = 1 / (2::real) ^ nat (bitlen k - 1)"
    proof -
      have "- bitlen k + 1 = - (bitlen k - 1)" by simp
      then have "(2::real) powi (- bitlen k + 1) = inverse (2 powi (bitlen k - 1))"
        by (simp only: power_int_minus)
      also have "\<dots> = 1 / 2 ^ nat (bitlen k - 1)"
        using b1 by (simp add: power_int_def inverse_eq_divide)
      finally show ?thesis .
    qed
    ultimately show ?thesis using False
      by (simp add: binade_def k_def [symmetric])
  qed
qed

lemma binade_eqI:
  assumes "2 powi e \<le> x" and "x < 2 powi (e + 1)"
  shows "binade x = e"
proof -
  have x: "0 < x" using assms(1) by (rule less_le_trans [rotated]) simp
  note b = binade_bounds [OF x]
  have "\<not> binade x + 1 \<le> e"
  proof
    assume "binade x + 1 \<le> e"
    then have "(2::real) powi (binade x + 1) \<le> 2 powi e" by (intro power_int_increasing) simp_all
    with b(2) assms(1) show False by linarith
  qed
  moreover have "\<not> e + 1 \<le> binade x"
  proof
    assume "e + 1 \<le> binade x"
    then have "(2::real) powi (e + 1) \<le> 2 powi binade x" by (intro power_int_increasing) simp_all
    with b(1) assms(2) show False by linarith
  qed
  ultimately show ?thesis by linarith
qed

text \<open>
  A rounding is evaluated from the binade of its argument and the integer nearest to the
  scaled argument.
\<close>

lemma to_double_eqI:
  assumes "2 powi e \<le> x" and "x < 2 powi (e + 1)" and "- 1022 \<le> e"
    and "of_int n - 1 / 2 < x / 2 powi (e - 52)" and "x / 2 powi (e - 52) < of_int n + 1 / 2"
  shows "to_double x = of_int n * 2 powi (e - 52)"
proof -
  have x: "0 < x" using assms(1) by (rule less_le_trans [rotated]) simp
  have b: "binade x = e" by (rule binade_eqI [OF assms(1,2)])
  have m: "max e (- 1022) = e" using assms(3) by simp
  have r: "round_even (x / 2 powi (e - 52)) = n" by (rule round_even_eqI [OF assms(4,5)])
  show ?thesis using x by (simp add: to_double_def b m Let_def r)
qed

lemma to_double_error:
  assumes "2 powi (- 1022) \<le> x"
  shows "\<bar>to_double x - x\<bar> \<le> x / 2 ^ 53"
proof -
  have x: "0 < x" using assms by (rule less_le_trans [rotated]) simp
  define b where "b = binade x"
  note bb = binade_bounds [OF x, folded b_def]
  have "\<not> b + 1 \<le> - 1022"
  proof
    assume "b + 1 \<le> - 1022"
    then have "(2::real) powi (b + 1) \<le> 2 powi (- 1022)" by (intro power_int_increasing) simp_all
    with bb(2) assms show False by linarith
  qed
  then have m: "max b (- 1022) = b" by simp
  define q where "q = (2::real) powi (b - 52)"
  have q: "0 < q" by (simp add: q_def)
  have qb: "q * 2 ^ 52 = 2 powi b"
  proof -
    have "(2::real) powi b = 2 powi ((b - 52) + 52)" by simp
    also have "\<dots> = 2 powi (b - 52) * 2 powi 52" by (rule power_int_add) simp
    finally show ?thesis by (simp add: q_def)
  qed
  have "to_double x = of_int (round_even (x / q)) * q"
    using x by (simp add: to_double_def b_def [symmetric] m Let_def q_def)
  then have "to_double x - x = (of_int (round_even (x / q)) - x / q) * q"
    using q by (simp add: field_simps)
  then have "\<bar>to_double x - x\<bar> = \<bar>of_int (round_even (x / q)) - x / q\<bar> * q"
    using q by (simp add: abs_mult)
  also have "\<dots> \<le> (1 / 2) * q"
    by (rule mult_right_mono [OF round_even_error]) (use q in simp)
  also have "\<dots> = 2 powi b / 2 ^ 53" by (simp add: qb [symmetric])
  also have "\<dots> \<le> x / 2 ^ 53" using bb(1) by (simp add: divide_right_mono)
  finally show ?thesis .
qed

lemma to_double_bounds:
  assumes "2 powi (- 1022) \<le> x"
  shows "x * (1 - 1 / 2 ^ 53) \<le> to_double x" and "to_double x \<le> x * (1 + 1 / 2 ^ 53)"
proof -
  from to_double_error [OF assms]
  have "to_double x - x \<le> x / 2 ^ 53" and "- (x / 2 ^ 53) \<le> to_double x - x"
    by (simp_all only: abs_le_iff) linarith+
  then show "x * (1 - 1 / 2 ^ 53) \<le> to_double x" and "to_double x \<le> x * (1 + 1 / 2 ^ 53)"
    by (simp_all add: algebra_simps)
qed

text \<open>
  Away from the subnormal range, rounding changes a positive number by at most the
  fraction \<open>2 ^ (- 53)\<close> of it.
\<close>

lemma normal_ge: "1 / 2 ^ 30 \<le> x \<Longrightarrow> 2 powi (- 1022) \<le> (x::real)"
proof -
  assume a: "1 / 2 ^ 30 \<le> x"
  have "(2::real) powi (- 1022) \<le> 2 powi (- 30)" by (intro power_int_increasing) simp_all
  also have "\<dots> = 1 / 2 ^ 30" by (simp add: power_int_minus inverse_eq_divide)
  finally show ?thesis using a by linarith
qed

lemma to_double_lower: "1 / 2 ^ 30 \<le> x \<Longrightarrow> x * (1 - 1 / 2 ^ 53) \<le> to_double x"
  and to_double_upper: "1 / 2 ^ 30 \<le> x \<Longrightarrow> to_double x \<le> x * (1 + 1 / 2 ^ 53)"
  by (rule to_double_bounds [OF normal_ge], assumption)+

subsection \<open>The constructor in double precision\<close>

text \<open>
  The cell sizes, the wave speed and the time step as the constructor computes them, each
  operation rounded. The arguments of a configuration are doubles already; the grid
  counts are integers, and \<open>nx - 1\<close> is an operation like any other.
\<close>

text \<open>\<^verbatim>\<open>Math.SQRT2\<close> is the double \<^verbatim>\<open>0x3FF6A09E667F3BCD\<close>.\<close>

definition SQRT2 :: real where
  "SQRT2 = 6369051672525773 / 2 ^ 52"

definition waveSpeed_double :: "solver_settings \<Rightarrow> real" where
  "waveSpeed_double solver =
     (let rawSpeed = (case speed solver of Num v \<Rightarrow> v | _ \<Rightarrow> 1)
      in clamp rawSpeed (to_double 0.05) 50)"

definition dx_double :: "solver_config \<Rightarrow> real" where
  "dx_double config =
     to_double (fst (worldSize (cfg_domain config))
                  / max 1 (to_double (real (nx_of config) - 1)))"

definition dy_double :: "solver_config \<Rightarrow> real" where
  "dy_double config =
     to_double (snd (worldSize (cfg_domain config))
                  / max 1 (to_double (real (ny_of config) - 1)))"

definition cfl_double :: "solver_config \<Rightarrow> real" where
  "cfl_double config = (case cfg_cfl config of None \<Rightarrow> to_double 0.45 | Some v \<Rightarrow> v)"

definition dt_double :: "solver_config \<Rightarrow> real" where
  "dt_double config =
     (let minCell = min (dx_double config) (dy_double config);
          waveSpeed = waveSpeed_double (cfg_solver config)
      in to_double (to_double (cfl_double config * minCell) / to_double (waveSpeed * SQRT2)))"

text \<open>The doubles that the literals of the constructor and of the runs below denote.\<close>

lemma to_double_045: "to_double 0.45 = 8106479329266893 / 2 ^ 54"
  using to_double_eqI [of "- 2" "0.45" 8106479329266893] by (simp add: power_int_minus)

lemma to_double_005: "to_double 0.05 = 7205759403792794 / 2 ^ 57"
  using to_double_eqI [of "- 5" "0.05" 7205759403792794] by (simp add: power_int_minus)

lemma to_double_03: "to_double 0.3 = 5404319552844595 / 2 ^ 54"
  using to_double_eqI [of "- 2" "0.3" 5404319552844595] by (simp add: power_int_minus)

lemma to_double_1: "to_double 1 = 1"
  using to_double_eqI [of 0 1 4503599627370496] by (simp add: power_int_minus)

lemma to_double_3: "to_double 3 = 3"
  using to_double_eqI [of 1 3 6755399441055744] by (simp add: power_int_minus)

lemma SQRT2_nearest: "SQRT2 = to_double (sqrt 2)"
proof -
  have lo: "(6369051672525773 - 1 / 2) / 2 ^ 52 < sqrt 2"
    by (rule real_less_rsqrt) (simp add: power_divide)
  have up: "sqrt 2 < (6369051672525773 + 1 / 2) / 2 ^ 52"
    by (rule real_less_lsqrt) (simp_all add: power_divide)
  have "1 \<le> sqrt 2" by simp
  moreover have "sqrt 2 < 2" by (rule real_less_lsqrt) simp_all
  ultimately have "to_double (sqrt 2) = of_int 6369051672525773 * 2 powi (0 - 52)"
    using lo up by (intro to_double_eqI) (simp_all add: power_int_minus field_simps)
  then show ?thesis by (simp add: SQRT2_def power_int_minus field_simps)
qed

text \<open>
  The Courant number of a time step computed in double precision, for cell sizes between
  \<open>1 / 1024\<close> and \<open>1024\<close> and a wave speed between \<open>1 / 50\<close> and \<open>50\<close>: the three
  operations of the time step, the literal \<open>0.45\<close> and \<^verbatim>\<open>Math.SQRT2\<close> each contribute one
  rounding.
\<close>

lemma rounded_courant_bound:
  fixes a b c :: real
  assumes a: "1 / 1024 \<le> a" "a \<le> 1024" and b: "1 / 1024 \<le> b" "b \<le> 1024"
    and c: "1 / 50 \<le> c" "c \<le> 50"
  defines "T \<equiv> to_double (to_double (to_double 0.45 * min a b) / to_double (c * to_double (sqrt 2)))"
  shows "0 < T" and "T \<le> 2 ^ 20"
    and "c * T * sqrt (1 / a\<^sup>2 + 1 / b\<^sup>2) \<le> 0.45 * (1 + 1 / 2 ^ 50)"
proof -
  define L :: real where "L = 1 - 1 / 2 ^ 53"
  define E :: real where "E = 1 + 1 / 2 ^ 53"
  define r :: real where "r = sqrt 2"
  define m where "m = min a b"
  define k where "k = to_double 0.45"
  define s where "s = to_double r"
  define N where "N = to_double (k * m)"
  define D where "D = to_double (c * s)"
  have T: "T = to_double (N / D)"
    by (simp add: T_def N_def D_def k_def s_def m_def r_def)
  have L: "0 < L" "L \<le> 1" "1 / 2 \<le> L" and E: "1 \<le> E" "0 < E" "E \<le> 2"
    and EL: "E ^ 3 / L\<^sup>2 \<le> 1 + 1 / 2 ^ 50"
    unfolding L_def E_def by (simp_all add: power_divide)
  have lo: "x * L \<le> to_double x" and up: "to_double x \<le> x * E" if "1 / 2 ^ 30 \<le> x" for x
    unfolding L_def E_def using that by (rule to_double_lower to_double_upper)+
  have r: "1 \<le> r" "r \<le> 2" "0 < r"
    unfolding r_def by (simp_all add: real_le_lsqrt)
  have m: "1 / 1024 \<le> m" "0 < m" "m \<le> a" "m \<le> b" "m \<le> 1024"
    using a b by (simp_all add: m_def min_le_iff_disj)
  have k: "0.45 * L \<le> k" "k \<le> 0.45 * E"
    unfolding k_def by (rule lo up, simp)+
  have k0: "1 / 5 \<le> k"
  proof -
    have "9 / 20 * L \<le> k" using k(1) by simp
    with L(3) show ?thesis by linarith
  qed
  have s: "r * L \<le> s" "s \<le> r * E"
    unfolding s_def by (rule lo up, use r in simp)+
  have s0: "1 / 2 \<le> s" "s \<le> 4"
  proof -
    have "1 * (1 / 2) \<le> r * L" by (rule mult_mono) (use r L in simp_all)
    with s(1) show "1 / 2 \<le> s" by simp
    have "r * E \<le> 2 * 2" by (rule mult_mono) (use r E in simp_all)
    with s(2) show "s \<le> 4" by simp
  qed
  have km: "1 / 2 ^ 30 \<le> k * m"
  proof -
    have "(1 / 5) * (1 / 1024) \<le> k * m" by (rule mult_mono) (use k0 m in simp_all)
    then show ?thesis by simp
  qed
  have km0: "0 < k * m" using km by (rule less_le_trans [rotated]) simp
  have N: "k * m * L \<le> N" "N \<le> k * m * E" unfolding N_def by (rule lo up, rule km)+
  have cs: "1 / 2 ^ 30 \<le> c * s"
  proof -
    have "(1 / 50) * (1 / 2) \<le> c * s" by (rule mult_mono) (use c s0 in simp_all)
    then show ?thesis by simp
  qed
  have cs0: "0 < c * s" using cs by (rule less_le_trans [rotated]) simp
  have c0: "0 < c" using c(1) by simp
  have D: "c * s * L \<le> D" "D \<le> c * s * E" unfolding D_def by (rule lo up, rule cs)+
  have D0: "0 < D" using D(1) cs0 L(1) by (meson less_le_trans mult_pos_pos)
  have N0: "0 < N" using N(1) km0 L(1) by (meson less_le_trans mult_pos_pos)
  have Dup: "D \<le> 400"
  proof -
    have "c * s \<le> 50 * 4" by (rule mult_mono) (use c s0 c0 in simp_all)
    then have "c * s * E \<le> (50 * 4) * 2" by (rule mult_mono) (use E cs0 in simp_all)
    with D(2) show ?thesis by simp
  qed
  have Nlo: "1 / 2 ^ 20 \<le> N"
  proof -
    have "(1 / 5) * (1 / 1024) \<le> k * m" by (rule mult_mono) (use k0 m in simp_all)
    then have "((1 / 5) * (1 / 1024)) * (1 / 2) \<le> k * m * L"
      by (rule mult_mono) (use L km0 in simp_all)
    with N(1) show ?thesis by simp
  qed
  have q: "1 / 2 ^ 30 \<le> N / D"
  proof -
    have "(1 / 2 ^ 20) / 400 \<le> N / D" by (rule frac_le) (use Nlo Dup D0 in simp_all)
    then show ?thesis by simp
  qed
  have q0: "0 < N / D" using N0 D0 by simp
  have Tlo: "N / D * L \<le> T" and Tup: "T \<le> N / D * E"
    unfolding T by (rule lo up, rule q)+
  show "0 < T" using Tlo q0 L(1) by (meson less_le_trans mult_pos_pos)
  show "T \<le> 2 ^ 20"
  proof -
    have "9 / 20 * E \<le> 9 / 20 * 2" by (rule mult_left_mono) (use E in simp_all)
    with k(2) have k1: "k \<le> 1" by simp
    have "k * m \<le> 1 * 1024" by (rule mult_mono) (use k1 m in simp_all)
    then have "k * m * E \<le> (1 * 1024) * 2" by (rule mult_mono) (use E km0 in simp_all)
    with N(2) have Nup: "N \<le> 2048" by simp
    have "(1 / 50) * (1 / 2) \<le> c * s" by (rule mult_mono) (use c s0 in simp_all)
    then have "((1 / 50) * (1 / 2)) * (1 / 2) \<le> c * s * L"
      by (rule mult_mono) (use L cs0 in simp_all)
    with D(1) have Dlo: "1 / 200 \<le> D" by simp
    have "N / D \<le> 2048 / (1 / 200)" by (rule frac_le) (use N0 Nup Dlo in simp_all)
    then have "N / D * E \<le> (2048 / (1 / 200)) * 2" by (rule mult_mono) (use E q0 in simp_all)
    with Tup show ?thesis by simp
  qed
  have T0: "0 \<le> T" using \<open>0 < T\<close> by simp
  have Dlo: "c * r * L\<^sup>2 \<le> D"
  proof -
    have "c * (r * L) \<le> c * s" by (rule mult_left_mono) (use s c0 in simp_all)
    then have "c * (r * L) * L \<le> c * s * L" by (rule mult_right_mono) (use L in simp)
    with D(1) show ?thesis by (simp add: power2_eq_square mult.assoc)
  qed
  have Nup: "N \<le> 0.45 * m * E\<^sup>2"
  proof -
    have "k * m \<le> 0.45 * E * m" by (rule mult_right_mono) (use k m in simp_all)
    then have "k * m * E \<le> 0.45 * E * m * E" by (rule mult_right_mono) (use E in simp)
    with N(2) show ?thesis by (simp add: power2_eq_square mult_ac)
  qed
  have den0: "0 < c * r * L\<^sup>2" using c0 r L by simp
  have "N / D \<le> (0.45 * m * E\<^sup>2) / (c * r * L\<^sup>2)"
    by (rule frac_le) (use N0 Nup den0 Dlo in simp_all)
  then have "N / D * E \<le> (0.45 * m * E\<^sup>2) / (c * r * L\<^sup>2) * E"
    by (rule mult_right_mono) (use E in simp)
  with Tup have Tb: "T \<le> (0.45 * m * E\<^sup>2) / (c * r * L\<^sup>2) * E" by linarith
  have "1 / a\<^sup>2 \<le> 1 / m\<^sup>2" using m by (simp add: frac_le power_mono)
  moreover have "1 / b\<^sup>2 \<le> 1 / m\<^sup>2" using m by (simp add: frac_le power_mono)
  ultimately have "1 / a\<^sup>2 + 1 / b\<^sup>2 \<le> 2 / m\<^sup>2" by simp
  then have "sqrt (1 / a\<^sup>2 + 1 / b\<^sup>2) \<le> sqrt (2 / m\<^sup>2)" by simp
  also have "sqrt (2 / m\<^sup>2) = r / m" using m by (simp add: real_sqrt_divide r_def)
  finally have le: "sqrt (1 / a\<^sup>2 + 1 / b\<^sup>2) \<le> r / m" .
  have cT: "0 \<le> c * T" using c0 T0 by simp
  have "c * T * sqrt (1 / a\<^sup>2 + 1 / b\<^sup>2) \<le> c * T * (r / m)"
    by (rule mult_left_mono [OF le cT])
  also have "\<dots> = T * (c * r / m)" by simp
  also have "\<dots> \<le> ((0.45 * m * E\<^sup>2) / (c * r * L\<^sup>2) * E) * (c * r / m)"
    by (rule mult_right_mono [OF Tb]) (use c0 r m in simp)
  also have "\<dots> = 0.45 * (E ^ 3 / L\<^sup>2)"
    using c0 r(3) m(2) L(1) by (simp add: field_simps power2_eq_square power3_eq_cube)
  also have "\<dots> \<le> 0.45 * (1 + 1 / 2 ^ 50)"
    by (rule mult_left_mono [OF EL]) simp
  finally show "c * T * sqrt (1 / a\<^sup>2 + 1 / b\<^sup>2) \<le> 0.45 * (1 + 1 / 2 ^ 50)" .
qed

lemma waveSpeed_double_bounds:
  "to_double 0.05 \<le> waveSpeed_double solver" "waveSpeed_double solver \<le> 50"
  "1 / 50 \<le> waveSpeed_double solver"
  unfolding waveSpeed_double_def clamp_def Let_def to_double_005
  by (simp_all add: le_max_iff_disj)

lemma cell_double_bounds:
  fixes w :: real and n :: nat
  assumes "1 \<le> w" and "w \<le> 500" and "2 \<le> n" and "n \<le> 512"
  shows "1 / 1024 \<le> to_double (w / max 1 (to_double (real n - 1)))"
    and "to_double (w / max 1 (to_double (real n - 1))) \<le> 1024"
proof -
  define d where "d = max 1 (to_double (real n - 1))"
  have n: "1 \<le> real n - 1" "real n - 1 \<le> 511" using assms(3,4) by simp_all
  have "1 / 2 ^ 30 \<le> real n - 1" using n(1) by simp
  then have "to_double (real n - 1) \<le> (real n - 1) * (1 + 1 / 2 ^ 53)" by (rule to_double_upper)
  also have "\<dots> \<le> 511 * (1 + 1 / 2 ^ 53)" by (rule mult_right_mono [OF n(2)]) simp
  also have "\<dots> \<le> 512" by simp
  finally have d: "1 \<le> d" "d \<le> 512" "0 < d" by (simp_all add: d_def)
  have q1: "1 / 512 \<le> w / d" by (rule frac_le) (use assms(1) d in simp_all)
  have "(1 :: real) / 2 ^ 30 \<le> 1 / 512" by simp
  with q1 have q: "1 / 512 \<le> w / d" "1 / 2 ^ 30 \<le> w / d" by linarith+
  have "(1 / 512) * (1 / 2) \<le> w / d * (1 - 1 / 2 ^ 53)"
    by (rule mult_mono [OF q(1)]) (use assms(1) d in simp_all)
  also have "\<dots> \<le> to_double (w / d)" by (rule to_double_lower [OF q(2)])
  finally have "1 / 1024 \<le> to_double (w / d)" by simp
  then show "1 / 1024 \<le> to_double (w / max 1 (to_double (real n - 1)))" unfolding d_def .
  have "w / d \<le> 500 / 1" by (rule frac_le) (use assms(1,2) d in simp_all)
  then have "w / d * (1 + 1 / 2 ^ 53) \<le> (500 / 1) * 2"
    by (rule mult_mono) (use assms(1) d in simp_all)
  moreover have "to_double (w / d) \<le> w / d * (1 + 1 / 2 ^ 53)" by (rule to_double_upper [OF q(2)])
  ultimately have "to_double (w / d) \<le> 1024" by simp
  then show "to_double (w / max 1 (to_double (real n - 1))) \<le> 1024" unfolding d_def .
qed

text \<open>
  The coarsest grid on a square domain of side 3, with the wave speed \<open>0.3\<close>: two
  samples in each direction, one cell of size 3. The speed of the configuration is the
  double that the literal \<open>0.3\<close> denotes.
\<close>

definition coarse_config :: solver_config where
  "coarse_config =
     \<lparr> cfg_domain = \<lparr> worldSize = (3, 3), grid = (2, 2), origin = (0, 0) \<rparr>,
       cfg_solver = \<lparr> speed = Num (to_double 0.3), attenuation = None \<rparr>,
       cfg_avgTau = None, cfg_cfl = None, cfg_pmlWidth = None \<rparr>"

lemma coarse_waveSpeed: "waveSpeed_double (cfg_solver coarse_config) = 5404319552844595 / 2 ^ 54"
  unfolding waveSpeed_double_def coarse_config_def clamp_def to_double_005
  by (simp add: to_double_03)

lemma coarse_cells: "nx_of coarse_config = 2" "ny_of coarse_config = 2"
  "dx_double coarse_config = 3" "dy_double coarse_config = 3"
  by (simp_all add: nx_of_def ny_of_def dx_double_def dy_double_def coarse_config_def
      to_double_1 to_double_3)

lemma coarse_numerator: "to_double (8106479329266893 / 2 ^ 54 * 3) = 3039929748475085 / 2 ^ 51"
  using to_double_eqI [of 0 "8106479329266893 / 2 ^ 54 * 3" 6079859496950170]
  by (simp add: power_int_minus)

lemma coarse_denominator:
  "to_double (5404319552844595 / 2 ^ 54 * (6369051672525773 / 2 ^ 52)) = 7642862007030927 / 2 ^ 54"
  using to_double_eqI [of "- 2" "5404319552844595 / 2 ^ 54 * (6369051672525773 / 2 ^ 52)" 7642862007030927]
  by (simp add: power_int_minus)

lemma coarse_quotient:
  "to_double (3039929748475085 / 2 ^ 51 / (7642862007030927 / 2 ^ 54)) = 7165183131591495 / 2 ^ 51"
  using to_double_eqI [of 1 "3039929748475085 / 2 ^ 51 / (7642862007030927 / 2 ^ 54)" 7165183131591495]
  by (simp add: power_int_minus)

lemma coarse_dt: "dt_double coarse_config = 7165183131591495 / 2 ^ 51"
proof -
  have "cfl_double coarse_config = 8106479329266893 / 2 ^ 54"
    unfolding cfl_double_def coarse_config_def to_double_045 by simp
  then show ?thesis
    unfolding dt_double_def Let_def coarse_cells coarse_waveSpeed SQRT2_def
    by (simp only: min.idem coarse_numerator coarse_denominator coarse_quotient)
qed

text \<open>
  C1, as the code has it. For a world size within \<open>[1, 500]\<close> in each direction and
  requested grid counts of at most 512, which are the ranges that \<^verbatim>\<open>src/state.js\<close>
  delivers, and the default Courant factor: the grid counts are at least 2, the wave speed
  is clamped to \<open>[0.05, 50]\<close>, the cell sizes are positive, the time step is the double
  precision value of \<open>0.45 * min dx dy / (waveSpeed * sqrt 2)\<close>, and the Courant number
  \<open>waveSpeed * dt * sqrt (1 / dx\<^sup>2 + 1 / dy\<^sup>2)\<close>, computed exactly from these doubles,
  is at most \<open>0.45 * (1 + 2 ^ (- 50))\<close>, which is below 1. The cell sizes and the time
  step stay below \<open>1024\<close> and \<open>2 ^ 20\<close>, so that no operation overflows.
\<close>

theorem cfl_stability_double:
  assumes "1 \<le> fst (worldSize (cfg_domain config))"
    and "fst (worldSize (cfg_domain config)) \<le> 500"
    and "1 \<le> snd (worldSize (cfg_domain config))"
    and "snd (worldSize (cfg_domain config)) \<le> 500"
    and "fst (grid (cfg_domain config)) \<le> 512"
    and "snd (grid (cfg_domain config)) \<le> 512"
    and "cfg_cfl config = None"
  shows "let c = waveSpeed_double (cfg_solver config);
             dxv = dx_double config; dyv = dy_double config; dtv = dt_double config
         in 2 \<le> nx_of config \<and> 2 \<le> ny_of config \<and> to_double 0.05 \<le> c \<and> c \<le> 50 \<and>
            0 < dxv \<and> dxv \<le> 1024 \<and> 0 < dyv \<and> dyv \<le> 1024 \<and>
            dtv = to_double (to_double (to_double 0.45 * min dxv dyv)
                               / to_double (c * SQRT2)) \<and>
            0 < dtv \<and> dtv \<le> 2 ^ 20 \<and>
            c * dtv * sqrt (1 / dxv\<^sup>2 + 1 / dyv\<^sup>2) \<le> 0.45 * (1 + 1 / 2 ^ 50) \<and>
            0.45 * (1 + 1 / 2 ^ 50) < (1 :: real)"
proof -
  let ?c = "waveSpeed_double (cfg_solver config)"
  have nx: "nx_of config \<le> 512"
    using assms(5) by (simp add: nx_of_def nat_le_iff floor_le_iff)
  have ny: "ny_of config \<le> 512"
    using assms(6) by (simp add: ny_of_def nat_le_iff floor_le_iff)
  have dx: "1 / 1024 \<le> dx_double config" "dx_double config \<le> 1024"
    unfolding dx_double_def by (rule cell_double_bounds [OF assms(1,2) nx_of_ge2 nx])+
  have dy: "1 / 1024 \<le> dy_double config" "dy_double config \<le> 1024"
    unfolding dy_double_def by (rule cell_double_bounds [OF assms(3,4) ny_of_ge2 ny])+
  have pos: "0 < dx_double config" "0 < dy_double config" using dx dy by simp_all
  have dt: "dt_double config
      = to_double (to_double (to_double 0.45 * min (dx_double config) (dy_double config))
                     / to_double (?c * to_double (sqrt 2)))"
    using assms(7) by (simp add: dt_double_def Let_def cfl_double_def SQRT2_nearest)
  note b = rounded_courant_bound [OF dx dy waveSpeed_double_bounds(3,2), of "cfg_solver config",
      folded dt]
  have last: "0.45 * (1 + 1 / 2 ^ 50) < (1 :: real)" by simp
  have dt': "dt_double config
      = to_double (to_double (to_double 0.45 * min (dx_double config) (dy_double config))
                     / to_double (?c * SQRT2))"
    using assms(7) by (simp add: dt_double_def Let_def cfl_double_def)
  show ?thesis
    unfolding Let_def
    using nx_of_ge2 [of config] ny_of_ge2 [of config]
      waveSpeed_double_bounds(1,2) [of "cfg_solver config"] pos dx(2) dy(2) dt' b last
    by blast
qed

theorem cfl_stability_double_witness:
  "waveSpeed_double (cfg_solver coarse_config) = 5404319552844595 / 2 ^ 54 \<and>
   dx_double coarse_config = 3 \<and> dy_double coarse_config = 3 \<and>
   dt_double coarse_config = 7165183131591495 / 2 ^ 51 \<and>
   5404319552844595 / 2 ^ 54 * (7165183131591495 / 2 ^ 51) * sqrt (1 / 3\<^sup>2 + 1 / 3\<^sup>2)
     \<le> 0.45 * (1 + 1 / 2 ^ 50)"
proof -
  have "1 \<le> fst (worldSize (cfg_domain coarse_config))"
    "fst (worldSize (cfg_domain coarse_config)) \<le> 500"
    "1 \<le> snd (worldSize (cfg_domain coarse_config))"
    "snd (worldSize (cfg_domain coarse_config)) \<le> 500"
    "fst (grid (cfg_domain coarse_config)) \<le> 512"
    "snd (grid (cfg_domain coarse_config)) \<le> 512"
    "cfg_cfl coarse_config = None"
    by (simp_all add: coarse_config_def)
  from cfl_stability_double [OF this]
  have "waveSpeed_double (cfg_solver coarse_config) * dt_double coarse_config
          * sqrt (1 / (dx_double coarse_config)\<^sup>2 + 1 / (dy_double coarse_config)\<^sup>2)
        \<le> 0.45 * (1 + 1 / 2 ^ 50)"
    unfolding Let_def by blast
  then show ?thesis
    unfolding coarse_waveSpeed coarse_cells coarse_dt by simp
qed

text \<open>
  C1, the counterexample. On the coarse configuration the constructor returns the time
  step \<open>7165183131591495 / 2 ^ 51\<close>, about \<open>3.1819805153394642\<close>, and the Courant number
  computed from it exceeds the Courant factor, both the double \<open>0.45\<close> of the code and the
  real number \<open>0.45\<close> below it.
\<close>

theorem cfl_bound_exceeded:
  "nx_of coarse_config = 2 \<and> ny_of coarse_config = 2 \<and>
   waveSpeed_double (cfg_solver coarse_config) = to_double 0.3 \<and>
   dx_double coarse_config = 3 \<and> dy_double coarse_config = 3 \<and>
   cfl_double coarse_config = to_double 0.45 \<and>
   dt_double coarse_config = 7165183131591495 / 2 ^ 51 \<and>
   0.45 < to_double 0.45 \<and>
   to_double 0.45 < waveSpeed_double (cfg_solver coarse_config) * dt_double coarse_config
       * sqrt (1 / (dx_double coarse_config)\<^sup>2 + 1 / (dy_double coarse_config)\<^sup>2)"
proof -
  have c: "waveSpeed_double (cfg_solver coarse_config) = to_double 0.3"
    unfolding coarse_waveSpeed to_double_03 by simp
  have k: "cfl_double coarse_config = to_double 0.45"
    by (simp add: cfl_double_def coarse_config_def)
  have k': "0.45 < to_double 0.45" unfolding to_double_045 by simp
  have "(8106479329266893 / 2 ^ 54 / (5404319552844595 / 2 ^ 54 * (7165183131591495 / 2 ^ 51)))
          < sqrt (2 / 9)"
    by (rule real_less_rsqrt) (simp add: power_divide)
  then have "8106479329266893 / 2 ^ 54
      < 5404319552844595 / 2 ^ 54 * (7165183131591495 / 2 ^ 51) * sqrt (2 / 9)"
    by (simp add: field_simps)
  then have "to_double 0.45 < waveSpeed_double (cfg_solver coarse_config) * dt_double coarse_config
       * sqrt (1 / (dx_double coarse_config)\<^sup>2 + 1 / (dy_double coarse_config)\<^sup>2)"
    unfolding coarse_waveSpeed coarse_cells coarse_dt to_double_045 by simp
  with c k k' show ?thesis
    using coarse_cells coarse_dt by blast
qed

subsection \<open>Below the normal range\<close>

text \<open>
  The bound needs cell sizes in the normal range of the doubles, where rounding is
  accurate to a fraction of the value. \<open>quantum\<close> is the smallest positive double, and
  below \<open>2 ^ 52 * quantum\<close> the doubles are its multiples.
\<close>

definition quantum :: real where
  "quantum = 2 powi (- 1074)"

lemma quantum_pos: "0 < quantum"
  unfolding quantum_def by (rule zero_less_power_int) simp

lemma normal_quantum: "2 powi (- 1022) = 2 ^ 52 * quantum"
proof -
  have "(2::real) powi (52 + (- 1074)) = 2 powi 52 * 2 powi (- 1074)"
    by (rule power_int_add) simp
  moreover have "(52::int) + (- 1074) = - 1022" by simp
  ultimately have "(2::real) powi (- 1022) = 2 powi 52 * 2 powi (- 1074)" by (simp only:)
  then show ?thesis by (simp only: quantum_def power_int_numeral)
qed

lemma to_double_subnormal_eqI:
  assumes "0 < x" and "x < 2 ^ 52 * quantum"
    and "of_int n - 1 / 2 < x / quantum" and "x / quantum < of_int n + 1 / 2"
  shows "to_double x = of_int n * quantum"
proof -
  have "\<not> - 1022 \<le> binade x"
  proof
    assume "- 1022 \<le> binade x"
    then have "(2::real) powi (- 1022) \<le> 2 powi binade x" by (intro power_int_increasing) simp_all
    with binade_bounds(1) [OF assms(1)] assms(2) show False
      unfolding normal_quantum by linarith
  qed
  then have "max (binade x) (- 1022) = - 1022" by simp
  then have m: "max (binade x) (- 1022) - 52 = - 1074" by simp
  have r: "round_even (x / quantum) = n" by (rule round_even_eqI [OF assms(3,4)])
  have ax: "\<bar>x\<bar> = x" "sgn x = 1" "x \<noteq> 0" using assms(1) by simp_all
  show ?thesis
    unfolding to_double_def Let_def ax m quantum_def [symmetric] r by (simp add: ax(3))
qed

text \<open>
  On a square domain whose side is twice the smallest positive double, with the wave
  speed 1, the product \<open>0.45 * minCell\<close> and the quotient of the time step are each
  rounded up to the smallest positive double, and the Courant number is \<open>sqrt 2 / 2\<close>.
\<close>

definition tiny_config :: solver_config where
  "tiny_config =
     \<lparr> cfg_domain = \<lparr> worldSize = (2 * quantum, 2 * quantum), grid = (2, 2),
                      origin = (0, 0) \<rparr>,
       cfg_solver = \<lparr> speed = Num 1, attenuation = None \<rparr>,
       cfg_avgTau = None, cfg_cfl = None, cfg_pmlWidth = None \<rparr>"

lemma tiny_cell: "to_double (2 * quantum) = 2 * quantum"
  using to_double_subnormal_eqI [of "2 * quantum" 2] quantum_pos by simp

lemma tiny_numerator: "to_double (8106479329266893 / 2 ^ 54 * (2 * quantum)) = quantum"
  using to_double_subnormal_eqI [of "8106479329266893 / 2 ^ 54 * (2 * quantum)" 1] quantum_pos
  by simp

lemma tiny_denominator: "to_double (1 * (6369051672525773 / 2 ^ 52)) = 6369051672525773 / 2 ^ 52"
  using to_double_eqI [of 0 "6369051672525773 / 2 ^ 52" 6369051672525773]
  by (simp add: power_int_minus)

lemma tiny_quotient: "to_double (quantum / (6369051672525773 / 2 ^ 52)) = quantum"
  using to_double_subnormal_eqI [of "quantum / (6369051672525773 / 2 ^ 52)" 1] quantum_pos
  by simp

lemma subnormal_domain_courant:
  "waveSpeed_double (cfg_solver tiny_config) = 1 \<and>
   dx_double tiny_config = 2 * quantum \<and> dy_double tiny_config = 2 * quantum \<and>
   dt_double tiny_config = quantum \<and>
   waveSpeed_double (cfg_solver tiny_config) * dt_double tiny_config
       * sqrt (1 / (dx_double tiny_config)\<^sup>2 + 1 / (dy_double tiny_config)\<^sup>2) = sqrt 2 / 2 \<and>
   0.45 * (1 + 1 / 2 ^ 50) < sqrt 2 / 2"
proof -
  have "(2 * (0.45 * (1 + 1 / 2 ^ 50)) :: real) < sqrt 2"
    by (rule real_less_rsqrt) (simp add: power_divide)
  then have big: "0.45 * (1 + 1 / 2 ^ 50) < sqrt 2 / 2" by simp
  have c: "waveSpeed_double (cfg_solver tiny_config) = 1"
    unfolding waveSpeed_double_def tiny_config_def clamp_def to_double_005 by simp
  have n: "nx_of tiny_config = 2" "ny_of tiny_config = 2"
    by (simp_all add: nx_of_def ny_of_def tiny_config_def)
  have d: "dx_double tiny_config = 2 * quantum" "dy_double tiny_config = 2 * quantum"
    unfolding dx_double_def dy_double_def n by (simp_all add: tiny_config_def to_double_1 tiny_cell)
  have k: "cfl_double tiny_config = 8106479329266893 / 2 ^ 54"
    unfolding cfl_double_def tiny_config_def to_double_045 by simp
  have t: "dt_double tiny_config = quantum"
    unfolding dt_double_def Let_def d c k SQRT2_def
    by (simp only: min.idem tiny_numerator tiny_denominator tiny_quotient)
  have "sqrt (1 / (2 * quantum)\<^sup>2 + 1 / (2 * quantum)\<^sup>2) = sqrt (2 / (2 * quantum)\<^sup>2)" by simp
  also have "\<dots> = sqrt 2 / (2 * quantum)"
    by (rule real_sqrt_unique) (use quantum_pos in \<open>simp_all add: power_divide\<close>)
  finally have s: "sqrt (1 / (2 * quantum)\<^sup>2 + 1 / (2 * quantum)\<^sup>2) = sqrt 2 / (2 * quantum)" .
  have "1 * quantum * (sqrt 2 / (2 * quantum)) = sqrt 2 / 2" using quantum_pos by simp
  then show ?thesis unfolding c d t s using big by simp
qed

section \<open>The step driver\<close>

lemma solver_inv_fields:
  assumes "solver_inv config s"
  shows "dt s = dt_of config" and "maxSubstepsPerFrame s = 8"
    and "nx s = nx_of config" and "ny s = ny_of config"
    and "length (ex s) = nx s * ny s" and "length (ey s) = nx s * ny s"
    and "length (hz s) = nx s * ny s" and "length (instantaneous s) = nx s * ny s"
    and "length (avgPower s) = nx s * ny s" and "length (avgMagnitude s) = nx s * ny s"
    and "length (epsRGrid s) = nx s * ny s" and "length (sigmaGrid s) = nx s * ny s"
  using assms
  by (simp_all add: solver_inv_def same_setup_acc_def same_setup_def EMSolver2D_def)

text \<open>
  C9. A call of \<^verbatim>\<open>step\<close> with a non-finite, zero or negative argument returns the
  solver as it was (every array, the accumulator, the clock and the statistics), and
  runs no fixed advance.
\<close>

theorem step_noop:
  assumes "deltaSeconds = NaN \<or> deltaSeconds = PosInfinity \<or> deltaSeconds = NegInfinity \<or>
           (\<exists>d. deltaSeconds = Num d \<and> d \<le> 0)"
  shows "step deltaSeconds s = s \<and> advances_run deltaSeconds s = 0"
  using assms by (auto simp add: step_def advances_run_def)

theorem step_noop_witness:
  "step NaN (EMSolver2D demo_config) = EMSolver2D demo_config \<and>
   step PosInfinity (EMSolver2D demo_config) = EMSolver2D demo_config \<and>
   step (Num 0) (EMSolver2D demo_config) = EMSolver2D demo_config \<and>
   step (Num (- 1)) (EMSolver2D demo_config) = EMSolver2D demo_config \<and>
   advances_run (Num (- 1)) (EMSolver2D demo_config) = 0"
  using step_noop [of NaN "EMSolver2D demo_config"]
    step_noop [of PosInfinity "EMSolver2D demo_config"]
    step_noop [of "Num 0" "EMSolver2D demo_config"]
    step_noop [of "Num (- 1)" "EMSolver2D demo_config"]
  by simp

lemma step_positive:
  assumes "0 < d" and "0 < dt s" and "maxSubstepsPerFrame s = 8"
  defines "k \<equiv> advances_run (Num d) s"
  shows "k \<le> 8"
    and "step (Num d) s =
           clamp_accumulator k ((substep (dt s) ^^ k) (s\<lparr>accumulator := accumulator s + d\<rparr>))"
    and "\<forall>j < k. dt s \<le> accumulator s + d - real j * dt s"
    and "k = 8 \<or> accumulator s + d - real k * dt s < dt s"
    and "accumulator (step (Num d) s) = min (accumulator s + d - real k * dt s) (dt s * 8)"
proof -
  obtain s2 c where run: "step_run d s = (s2, c)" by (cases "step_run d s")
  from assms(1) run have k: "k = c" by (simp add: k_def advances_run_def)
  note fp = step_run_funpow [OF run, unfolded assms(3), folded k]
  from fp show "k \<le> 8" by simp
  from fp have s2: "s2 = (substep (dt s) ^^ k) (s\<lparr>accumulator := accumulator s + d\<rparr>)" by simp
  from assms(1) run k show st: "step (Num d) s =
      clamp_accumulator k ((substep (dt s) ^^ k) (s\<lparr>accumulator := accumulator s + d\<rparr>))"
    by (simp add: step_def s2)
  from fp show guard: "\<forall>j < k. dt s \<le> accumulator s + d - real j * dt s" by simp
  from fp show ex: "k = 8 \<or> accumulator s + d - real k * dt s < dt s" by simp
  have acc2: "accumulator s2 = accumulator s + d - real k * dt s"
    by (simp add: s2 substeps_accumulator)
  have dt2: "dt s2 = dt s" by (simp add: s2 substeps_dt)
  have max2: "maxSubstepsPerFrame s2 = 8" by (simp add: s2 substeps_maxSubsteps assms(3))
  show "accumulator (step (Num d) s) = min (accumulator s + d - real k * dt s) (dt s * 8)"
    using ex \<open>k \<le> 8\<close> assms(2)
    unfolding st s2 [symmetric]
    by (auto simp add: clamp_accumulator_def Let_def acc2 dt2 max2 min_def)
qed

lemma step_accumulator_bound:
  assumes "0 < dt s" and "maxSubstepsPerFrame s = 8" and "accumulator s \<le> dt s * 8"
  shows "accumulator (step deltaSeconds s) \<le> dt s * 8"
proof (cases deltaSeconds)
  case (Num d)
  show ?thesis
  proof (cases "0 < d")
    case True
    from step_positive(5) [OF True assms(1,2)] Num show ?thesis by simp
  next
    case False
    with Num assms(3) show ?thesis by (simp add: step_def)
  qed
qed (simp_all add: step_def assms(3))

lemma reset_accumulator: "accumulator (reset s) = 0"
  by (simp add: reset_def)

lemma reachable_accumulator:
  assumes "reachable config s" and "0 < dt_of config"
  shows "accumulator s \<le> dt s * 8"
  using assms(1)
proof (induction rule: reachable.induct)
  case constructed
  from assms(2) show ?case by (simp add: EMSolver2D_def)
next
  case (after_step s deltaSeconds)
  from reachable_inv [OF after_step.hyps] have inv: "solver_inv config s" .
  from solver_inv_step [OF inv] have "dt (step deltaSeconds s) = dt_of config"
    by (rule solver_inv_fields)
  moreover have "accumulator (step deltaSeconds s) \<le> dt s * 8"
    using assms(2) after_step.IH solver_inv_fields(1,2) [OF inv]
    by (intro step_accumulator_bound) simp_all
  ultimately show ?case using solver_inv_fields(1) [OF inv] by simp
next
  case (after_reset s)
  from reachable_inv [OF after_reset.hyps] have inv: "solver_inv config s" .
  from solver_inv_reset [OF inv] have "dt (reset s) = dt_of config"
    by (rule solver_inv_fields)
  with assms(2) show ?case by (simp add: reset_accumulator)
next
  case (after_setSources s srcs)
  then show ?case by (simp add: setSources_def)
next
  case (after_setBarrier s shapes)
  then show ?case by (simp add: setBarrierFromShapes_def split: option.splits)
qed

text \<open>
  C7. For a solver with a positive time step, in any state it can reach, a call of
  \<^verbatim>\<open>step\<close> runs at most 8 fixed advances and leaves an accumulator of at most
  \<open>dt * 8\<close>. With a finite positive argument \<open>d\<close> it runs \<open>k\<close> times the body
  "advance, then take \<open>dt\<close> off the accumulator", each time with at least \<open>dt\<close> in the
  accumulator; it stops with \<open>k = 8\<close> or with less than \<open>dt\<close> left, and the accumulator
  it leaves is what remains, clamped to \<open>dt * 8\<close>.
\<close>

theorem step_substep_cap:
  assumes "reachable config s" and "0 < dt (EMSolver2D config)"
  shows "advances_run deltaSeconds s \<le> 8 \<and>
         accumulator (step deltaSeconds s) \<le> dt s * 8 \<and>
         (\<forall>d. deltaSeconds = Num d \<and> 0 < d \<longrightarrow>
            (let k = advances_run deltaSeconds s
             in step deltaSeconds s =
                  clamp_accumulator k
                    ((substep (dt s) ^^ k) (s\<lparr>accumulator := accumulator s + d\<rparr>)) \<and>
                (\<forall>j < k. dt s \<le> accumulator s + d - real j * dt s) \<and>
                (k = 8 \<or> accumulator s + d - real k * dt s < dt s) \<and>
                accumulator (step deltaSeconds s) =
                  min (accumulator s + d - real k * dt s) (dt s * 8)))"
proof -
  from assms(2) have pos: "0 < dt_of config" by (simp add: EMSolver2D_def)
  from reachable_inv [OF assms(1)] have inv: "solver_inv config s" .
  note f = solver_inv_fields(1,2) [OF inv]
  from pos f have dts: "0 < dt s" by simp
  have "advances_run deltaSeconds s \<le> 8"
  proof (cases deltaSeconds)
    case (Num d)
    show ?thesis
    proof (cases "0 < d")
      case True
      from step_positive(1) [OF True dts f(2)] Num show ?thesis by simp
    next
      case False
      with Num show ?thesis by (simp add: advances_run_def)
    qed
  qed (simp_all add: advances_run_def)
  moreover have "accumulator (step deltaSeconds s) \<le> dt s * 8"
    by (rule step_accumulator_bound [OF dts f(2) reachable_accumulator [OF assms(1) pos]])
  moreover have "step (Num d) s =
        clamp_accumulator (advances_run (Num d) s)
          ((substep (dt s) ^^ advances_run (Num d) s) (s\<lparr>accumulator := accumulator s + d\<rparr>)) \<and>
      (\<forall>j < advances_run (Num d) s. dt s \<le> accumulator s + d - real j * dt s) \<and>
      (advances_run (Num d) s = 8 \<or>
         accumulator s + d - real (advances_run (Num d) s) * dt s < dt s) \<and>
      accumulator (step (Num d) s) =
         min (accumulator s + d - real (advances_run (Num d) s) * dt s) (dt s * 8)"
    if "0 < d" for d
    using step_positive(2-5) [OF that dts f(2)] by blast
  ultimately show ?thesis unfolding Let_def by blast
qed

lemma demo_dt: "dt (EMSolver2D demo_config) = 0.45 / sqrt 2"
proof -
  have n: "nx_of demo_config = 4" "ny_of demo_config = 4"
    by (simp_all add: nx_of_def ny_of_def demo_config_def)
  have d: "dx_of demo_config = 1" "dy_of demo_config = 1"
    by (simp_all add: dx_of_def dy_of_def n) (simp_all add: demo_config_def)
  have ws: "waveSpeed_of (cfg_solver demo_config) = 1"
    by (simp add: waveSpeed_of_def demo_config_def clamp_def)
  have cfl: "cfl_of demo_config = 0.45"
    by (simp add: cfl_of_def demo_config_def)
  show ?thesis by (simp add: EMSolver2D_def dt_of_def d ws cfl)
qed

lemma demo_dt_bounds: "0 < dt (EMSolver2D demo_config)" "dt (EMSolver2D demo_config) \<le> 0.45"
proof -
  have "1 \<le> sqrt 2" by simp
  then have "0.45 / sqrt 2 \<le> (0.45 :: real) / 1" by (intro divide_left_mono) simp_all
  then show "dt (EMSolver2D demo_config) \<le> 0.45" by (simp add: demo_dt)
  show "0 < dt (EMSolver2D demo_config)" by (simp add: demo_dt)
qed

theorem step_substep_cap_witness:
  "0 < dt (EMSolver2D demo_config) \<and>
   advances_run (Num 100) (EMSolver2D demo_config) = 8 \<and>
   accumulator (step (Num 100) (EMSolver2D demo_config)) = dt (EMSolver2D demo_config) * 8"
proof -
  let ?s = "EMSolver2D demo_config" and ?k = "advances_run (Num 100) (EMSolver2D demo_config)"
  have acc0: "accumulator ?s = 0" by (simp add: EMSolver2D_def)
  note cap = step_substep_cap [OF reachable.constructed demo_dt_bounds(1), of "Num 100",
      unfolded Let_def]
  have hundred: "(0::real) < 100" by simp
  from cap have k: "?k \<le> 8" by blast
  from cap hundred
  have stop: "?k = 8 \<or> accumulator ?s + 100 - real ?k * dt ?s < dt ?s" by blast
  from cap hundred
  have acc: "accumulator (step (Num 100) ?s) =
      min (accumulator ?s + 100 - real ?k * dt ?s) (dt ?s * 8)" by blast
  have "real ?k * dt ?s \<le> 8 * 0.45"
    using k demo_dt_bounds by (intro mult_mono) simp_all
  with demo_dt_bounds(2) have "\<not> accumulator ?s + 100 - real ?k * dt ?s < dt ?s"
    by (simp add: acc0)
  with stop have k8: "?k = 8" by simp
  from acc demo_dt_bounds(2) have "accumulator (step (Num 100) ?s) = dt ?s * 8"
    by (simp add: k8 acc0 min_def)
  with k8 demo_dt_bounds(1) show ?thesis by simp
qed

section \<open>Reset\<close>

lemma reset_reset: "reset (reset s) = reset s"
  by (simp add: reset_def)

lemma reset_funpow: "(reset ^^ Suc n) s = reset s"
  by (induction n) (simp_all add: reset_reset)

text \<open>
  C10. In any state the solver can reach, \<^verbatim>\<open>reset\<close> leaves all six arrays zero, the
  clock, the accumulator and the statistics zero; resetting again, any number of times,
  changes nothing; the fields, the clock, the accumulator and the statistics are those
  of a freshly constructed solver of the same configuration; the source list and the
  material grids are kept, so that the whole state is the fresh solver with the current
  sources and materials put in.
\<close>

theorem reset_restores:
  assumes "reachable config s"
  shows "let r = reset s; s0 = EMSolver2D config
         in ex r = replicate (nx s * ny s) 0 \<and> ey r = replicate (nx s * ny s) 0 \<and>
            hz r = replicate (nx s * ny s) 0 \<and>
            instantaneous r = replicate (nx s * ny s) 0 \<and>
            avgPower r = replicate (nx s * ny s) 0 \<and>
            avgMagnitude r = replicate (nx s * ny s) 0 \<and>
            time r = 0 \<and> accumulator r = 0 \<and>
            stats r = \<lparr> stats_time = 0, maxInstantaneous = 0, meanInstantaneous = 0 \<rparr> \<and>
            reset r = r \<and> (\<forall>n. (reset ^^ Suc n) s = r) \<and>
            ex r = ex s0 \<and> ey r = ey s0 \<and> hz r = hz s0 \<and>
            instantaneous r = instantaneous s0 \<and> avgPower r = avgPower s0 \<and>
            avgMagnitude r = avgMagnitude s0 \<and>
            time r = time s0 \<and> accumulator r = accumulator s0 \<and> stats r = stats s0 \<and>
            sources r = sources s \<and> epsRGrid r = epsRGrid s \<and>
            sigmaGrid r = sigmaGrid s \<and> metalMask r = metalMask s \<and>
            r = s0\<lparr>sources := sources s, epsRGrid := epsRGrid s,
                   sigmaGrid := sigmaGrid s, metalMask := metalMask s\<rparr>"
proof -
  from reachable_inv [OF assms] have inv: "solver_inv config s" .
  note len = solver_inv_fields(3-10) [OF inv]
  have same: "same_setup_acc ((EMSolver2D config)\<lparr>sources := sources s, epsRGrid := epsRGrid s,
        sigmaGrid := sigmaGrid s, metalMask := metalMask s\<rparr>) s"
    using inv by (simp add: solver_inv_def)
  have whole: "reset s = (EMSolver2D config)\<lparr>sources := sources s, epsRGrid := epsRGrid s,
                   sigmaGrid := sigmaGrid s, metalMask := metalMask s\<rparr>"
    using same len
    by (intro em_solver.equality)
       (simp_all add: reset_def same_setup_acc_def same_setup_def EMSolver2D_def)
  have arrays: "ex (reset s) = replicate (nx s * ny s) 0" "ey (reset s) = replicate (nx s * ny s) 0"
    "hz (reset s) = replicate (nx s * ny s) 0"
    "instantaneous (reset s) = replicate (nx s * ny s) 0"
    "avgPower (reset s) = replicate (nx s * ny s) 0"
    "avgMagnitude (reset s) = replicate (nx s * ny s) 0"
    using len by (simp_all add: reset_def)
  have fresh: "ex (EMSolver2D config) = replicate (nx s * ny s) 0"
    "ey (EMSolver2D config) = replicate (nx s * ny s) 0"
    "hz (EMSolver2D config) = replicate (nx s * ny s) 0"
    "instantaneous (EMSolver2D config) = replicate (nx s * ny s) 0"
    "avgPower (EMSolver2D config) = replicate (nx s * ny s) 0"
    "avgMagnitude (EMSolver2D config) = replicate (nx s * ny s) 0"
    "time (EMSolver2D config) = 0" "accumulator (EMSolver2D config) = 0"
    "stats (EMSolver2D config) = \<lparr> stats_time = 0, maxInstantaneous = 0, meanInstantaneous = 0 \<rparr>"
    using len by (simp_all add: EMSolver2D_def)
  have scalars: "time (reset s) = 0" "accumulator (reset s) = 0"
    "stats (reset s) = \<lparr> stats_time = 0, maxInstantaneous = 0, meanInstantaneous = 0 \<rparr>"
    "sources (reset s) = sources s" "epsRGrid (reset s) = epsRGrid s"
    "sigmaGrid (reset s) = sigmaGrid s" "metalMask (reset s) = metalMask s"
    by (simp_all add: reset_def)
  have idem: "reset (reset s) = reset s" "\<forall>n. (reset ^^ Suc n) s = reset s"
    using reset_reset reset_funpow by blast+
  show ?thesis
    unfolding Let_def
    by (intro conjI arrays scalars idem whole) (simp_all only: arrays fresh scalars)
qed

theorem reset_restores_witness:
  "hz (reset (step (Num 1) (EMSolver2D demo_config))) = replicate 16 0 \<and>
   ex (reset (step (Num 1) (EMSolver2D demo_config))) = ex (EMSolver2D demo_config) \<and>
   time (reset (step (Num 1) (EMSolver2D demo_config))) = 0 \<and>
   stats (reset (step (Num 1) (EMSolver2D demo_config))) = stats (EMSolver2D demo_config) \<and>
   reset (reset (step (Num 1) (EMSolver2D demo_config))) = reset (step (Num 1) (EMSolver2D demo_config))"
proof -
  let ?s = "step (Num 1) (EMSolver2D demo_config)"
  have r: "reachable demo_config ?s"
    by (rule reachable.after_step [OF reachable.constructed])
  have n: "nx ?s = 4" "ny ?s = 4"
    using solver_inv_fields(3,4) [OF reachable_inv [OF r]]
    by (simp_all add: nx_of_def ny_of_def demo_config_def)
  then have n16: "nx ?s * ny ?s = 16" by simp
  from reset_restores [OF r, unfolded Let_def n16] show ?thesis by blast
qed

section \<open>The blocks of a fixed step, cell by cell\<close>

lemma fold_establish:
  assumes "x \<in> set xs"
    and inv: "\<And>y st. I st \<Longrightarrow> I (f y st)"
    and est: "\<And>st. I st \<Longrightarrow> Q (f x st)"
    and keep: "\<And>y st. I st \<Longrightarrow> Q st \<Longrightarrow> Q (f y st)"
    and "I s"
  shows "Q (fold f xs s)"
  using assms(1,5)
proof (induction xs arbitrary: s)
  case Nil
  then show ?case by simp
next
  case (Cons a xs)
  show ?case
  proof (cases "x = a")
    case True
    have "I (fold f xs (f a s)) \<and> Q (fold f xs (f a s))"
      by (rule fold_pres [where P = "\<lambda>st. I st \<and> Q st"])
         (auto intro: inv keep est Cons.prems(2) simp: True [symmetric])
    then show ?thesis by simp
  next
    case False
    with Cons.prems(1) have "x \<in> set xs" by simp
    from Cons.IH [OF this inv [OF Cons.prems(2)]] show ?thesis by simp
  qed
qed

lemma nth_update_zero: "xs ! i = (0::real) \<Longrightarrow> xs[j := 0] ! i = 0"
  by (cases "j = i"; cases "i < length xs") (simp_all add: list_update_beyond)

lemma replicate_update_same: "(replicate n v)[j := v] = replicate n v"
  by (cases "j < n") (auto simp add: list_eq_iff_nth_eq nth_list_update)

subsection \<open>Time is advanced by the last block only\<close>

lemma zero_metal_time: "time (zero_metal s) = time s"
proof (cases "metalMask s")
  case None
  then show ?thesis by (simp add: zero_metal_def)
next
  case (Some metal)
  have "time (fold (\<lambda>i st. if metal ! i
            then st\<lparr>ex := (ex st)[i := 0], ey := (ey st)[i := 0], hz := (hz st)[i := 0]\<rparr>
            else st) [0..<length metal] s) = time s"
    by (rule fold_pres) simp_all
  with Some show ?thesis by (simp add: zero_metal_def)
qed

lemma update_hz_time: "time (update_hz dtv s) = time s"
  unfolding update_hz_def
  by (rule fold_pres, rule fold_pres) (simp_all add: hz_cell_def Let_def)

lemma inject_hz_time: "time (inject_hz s) = time s"
  unfolding inject_hz_def
  by (rule fold_pres) (simp_all add: inject_hz_cell_def Let_def)

lemma update_e_time: "time (update_e dtv s) = time s"
  unfolding update_e_def
  by (rule fold_pres, rule fold_pres) (simp_all add: e_cell_def Let_def)

subsection \<open>Metal cells are zeroed first\<close>

lemma zero_metal_nth:
  assumes "mask_at (metalMask s) i"
    and "i < length (ex s)" and "i < length (ey s)" and "i < length (hz s)"
  shows "ex (zero_metal s) ! i = 0 \<and> ey (zero_metal s) ! i = 0 \<and> hz (zero_metal s) ! i = 0"
proof -
  from assms(1) obtain metal where m: "metalMask s = Some metal" "i < length metal" "metal ! i"
    by (auto simp: mask_at_def split: option.splits)
  let ?f = "\<lambda>j st. if metal ! j
            then st\<lparr>ex := (ex st)[j := 0], ey := (ey st)[j := 0], hz := (hz st)[j := 0]\<rparr>
            else st"
  let ?I = "\<lambda>st. length (ex st) = length (ex s) \<and> length (ey st) = length (ey s) \<and>
                 length (hz st) = length (hz s)"
  let ?Q = "\<lambda>st. ex st ! i = 0 \<and> ey st ! i = 0 \<and> hz st ! i = 0"
  have "?Q (fold ?f [0..<length metal] s)"
  proof (rule fold_establish [where I = ?I and x = i])
    show "i \<in> set [0..<length metal]" using m(2) by simp
    show "?I s" by simp
    show "?I (?f y st)" if "?I st" for y st using that by simp
    show "?Q (?f i st)" if "?I st" for st using that m(3) assms(2-4) by simp
    show "?Q (?f y st)" if "?I st" "?Q st" for y st using that by (simp add: nth_update_zero)
  qed
  with m(1) show ?thesis by (simp add: zero_metal_def)
qed

subsection \<open>The curl updates skip metal cells and write their own cell only\<close>

lemma hz_cell_ex: "ex (hz_cell dtv idx s) = ex s" and hz_cell_ey: "ey (hz_cell dtv idx s) = ey s"
  by (simp_all add: hz_cell_def Let_def)

lemma update_hz_e: "ex (update_hz dtv s) = ex s \<and> ey (update_hz dtv s) = ey s"
  unfolding update_hz_def
  by (rule fold_pres, rule fold_pres) (simp_all add: hz_cell_ex hz_cell_ey)

lemma update_hz_metal:
  assumes "mask_at (metalMask s) i"
  shows "hz (update_hz dtv s) ! i = hz s ! i"
proof -
  let ?P = "\<lambda>st. metalMask st = metalMask s \<and> hz st ! i = hz s ! i"
  have step: "?P (hz_cell dtv idx st)" if "?P st" for idx st
    using that assms by (cases "idx = i") (simp_all add: hz_cell_def Let_def)
  have "?P (update_hz dtv s)"
    unfolding update_hz_def
    by (rule fold_pres, rule fold_pres, erule step) simp_all
  then show ?thesis by simp
qed

lemma e_cell_hz: "hz (e_cell dtv idx s) = hz s"
  by (simp add: e_cell_def Let_def)

lemma update_e_hz: "hz (update_e dtv s) = hz s"
  unfolding update_e_def
  by (rule fold_pres, rule fold_pres) (simp_all add: e_cell_hz)

lemma update_e_metal:
  assumes "mask_at (metalMask s) i"
  shows "ex (update_e dtv s) ! i = ex s ! i \<and> ey (update_e dtv s) ! i = ey s ! i"
proof -
  let ?P = "\<lambda>st. metalMask st = metalMask s \<and> ex st ! i = ex s ! i \<and> ey st ! i = ey s ! i"
  have step: "?P (e_cell dtv idx st)" if "?P st" for idx st
    using that assms by (cases "idx = i") (simp_all add: e_cell_def Let_def)
  have "?P (update_e dtv s)"
    unfolding update_e_def
    by (rule fold_pres, rule fold_pres, erule step) simp_all
  then show ?thesis by simp
qed

subsection \<open>The first injection block\<close>

definition hz_signal :: "real \<Rightarrow> active_source \<Rightarrow> real" where
  "hz_signal t source = amplitude source * sin (2 * pi * frequency source * t + phase source)"

lemma inject_hz_e: "ex (inject_hz s) = ex s \<and> ey (inject_hz s) = ey s"
  unfolding inject_hz_def
  by (rule fold_pres) (simp_all add: inject_hz_cell_def Let_def)

lemma fold_inject_hz_nth:
  "i < length (hz st) \<Longrightarrow>
   hz (fold (inject_hz_cell t) srcs st) ! i =
     hz st ! i + sum_list (map (hz_signal t) (filter (\<lambda>source. index source = i) srcs))"
proof (induction srcs arbitrary: st)
  case Nil
  then show ?case by simp
next
  case (Cons a srcs)
  have len: "i < length (hz (inject_hz_cell t a st))"
    using Cons.prems by (simp add: inject_hz_cell_def Let_def)
  have one: "hz (inject_hz_cell t a st) ! i =
      hz st ! i + (if index a = i then hz_signal t a else 0)"
    using Cons.prems
    by (simp add: inject_hz_cell_def Let_def hz_signal_def TAU_def nth_list_update mult.commute)
  show ?case
    using Cons.IH [OF len] one by simp
qed

lemma inject_hz_nth:
  "i < length (hz s) \<Longrightarrow>
   hz (inject_hz s) ! i =
     hz s ! i + sum_list (map (hz_signal (time s)) (filter (\<lambda>source. index source = i) (sources s)))"
  unfolding inject_hz_def by (rule fold_inject_hz_nth)

subsection \<open>The second injection block\<close>

lemma inject_source_skipped:
  "mask_at (metalMask s) (index source) \<or> mask_at (pmlMask s) (index source) \<Longrightarrow>
   inject_source t source s = s"
  by (auto simp add: inject_source_def Let_def)

lemma inject_source_time: "time (inject_source t source s) = time s"
  by (simp add: inject_source_def Let_def split: excite.splits)

lemma inject_sources_time: "time (inject_sources s) = time s"
  unfolding inject_sources_def
  by (rule fold_pres) (simp_all add: inject_source_time)

lemma inject_source_other:
  "index source \<noteq> i \<Longrightarrow>
   ex (inject_source t source s) ! i = ex s ! i \<and>
   ey (inject_source t source s) ! i = ey s ! i \<and>
   hz (inject_source t source s) ! i = hz s ! i"
  by (simp add: inject_source_def Let_def split: excite.splits)

lemma inject_source_masks:
  "metalMask (inject_source t source s) = metalMask s \<and>
   pmlMask (inject_source t source s) = pmlMask s"
  by (simp add: inject_source_def Let_def split: excite.splits)

lemma inject_sources_masked_cell:
  assumes "mask_at (metalMask s) i \<or> mask_at (pmlMask s) i"
  shows "ex (inject_sources s) ! i = ex s ! i \<and> ey (inject_sources s) ! i = ey s ! i \<and>
         hz (inject_sources s) ! i = hz s ! i"
proof -
  let ?P = "\<lambda>st. metalMask st = metalMask s \<and> pmlMask st = pmlMask s \<and>
                 ex st ! i = ex s ! i \<and> ey st ! i = ey s ! i \<and> hz st ! i = hz s ! i"
  have step: "?P (inject_source t source st)" if "?P st" for t source st
  proof (cases "index source = i")
    case True
    with that assms have "inject_source t source st = st"
      by (intro inject_source_skipped) auto
    with that show ?thesis by simp
  next
    case False
    with that show ?thesis by (simp add: inject_source_other inject_source_masks)
  qed
  have "?P (inject_sources s)"
    unfolding inject_sources_def by (rule fold_pres, erule step) simp
  then show ?thesis by simp
qed

lemma inject_sources_single:
  "sources s = [source] \<Longrightarrow> inject_sources s = inject_source (time s) source s"
  by (simp add: inject_sources_def)

subsection \<open>The edge ring\<close>

definition interior :: "nat \<Rightarrow> nat \<Rightarrow> nat \<Rightarrow> bool" where
  "interior nx0 ny0 i \<longleftrightarrow>
     0 < i mod nx0 \<and> i mod nx0 < nx0 - 1 \<and> 0 < i div nx0 \<and> i div nx0 < ny0 - 1"

lemma zero_cell_other:
  "j \<noteq> i \<Longrightarrow> ex (zero_cell j s) ! i = ex s ! i \<and> ey (zero_cell j s) ! i = ey s ! i \<and>
     hz (zero_cell j s) ! i = hz s ! i"
  by (simp add: zero_cell_def)

lemma zero_cell_nx: "nx (zero_cell j s) = nx s" and zero_cell_ny: "ny (zero_cell j s) = ny s"
  by (simp_all add: zero_cell_def)

lemma interior_not_edge:
  assumes "interior nx0 ny0 i"
  shows "x < nx0 \<Longrightarrow> i \<noteq> x" and "x < nx0 \<Longrightarrow> i \<noteq> (ny0 - 1) * nx0 + x"
    and "i \<noteq> y * nx0" and "i \<noteq> y * nx0 + nx0 - 1"
proof -
  from assms have nx0: "2 \<le> nx0" unfolding interior_def by arith
  show "i \<noteq> x" if "x < nx0"
  proof
    assume "i = x"
    with that assms show False by (simp add: interior_def)
  qed
  show "i \<noteq> (ny0 - 1) * nx0 + x" if "x < nx0"
  proof
    assume "i = (ny0 - 1) * nx0 + x"
    with that have "i div nx0 = ny0 - 1" by simp
    with assms show False by (simp add: interior_def)
  qed
  show "i \<noteq> y * nx0"
  proof
    assume "i = y * nx0"
    then have "i mod nx0 = 0" by simp
    with assms show False by (simp add: interior_def)
  qed
  show "i \<noteq> y * nx0 + nx0 - 1"
  proof
    assume "i = y * nx0 + nx0 - 1"
    moreover have "y * nx0 + nx0 - 1 = y * nx0 + (nx0 - 1)" using nx0 by simp
    ultimately have "i = y * nx0 + (nx0 - 1)" by simp
    then have "i mod nx0 = (nx0 - 1) mod nx0" by simp
    with nx0 have "i mod nx0 = nx0 - 1" by simp
    with assms show False by (simp add: interior_def)
  qed
qed

lemma zero_edges_interior:
  assumes "interior (nx s) (ny s) i"
  shows "ex (zero_edges s) ! i = ex s ! i \<and> ey (zero_edges s) ! i = ey s ! i \<and>
         hz (zero_edges s) ! i = hz s ! i"
proof -
  let ?P = "\<lambda>st. ex st ! i = ex s ! i \<and> ey st ! i = ey s ! i \<and> hz st ! i = hz s ! i"
  note ne = interior_not_edge [OF assms]
  let ?s1 = "fold (\<lambda>x st. zero_cell ((ny s - 1) * nx s + x) (zero_cell x st)) [0..<nx s] s"
  have "?P ?s1"
  proof (rule fold_pres_set)
    show "?P s" by simp
    show "?P (zero_cell ((ny s - 1) * nx s + x) (zero_cell x st))"
      if "x \<in> set [0..<nx s]" "?P st" for x st
      using that ne(1,2) [of x] by (simp add: zero_cell_other)
  qed
  moreover have "?P (fold (\<lambda>y st. zero_cell (y * nx s + nx s - 1) (zero_cell (y * nx s) st))
      [0..<ny s] ?s1)"
  proof (rule fold_pres)
    show "?P ?s1" by fact
    show "?P (zero_cell (y * nx s + nx s - 1) (zero_cell (y * nx s) st))" if "?P st" for y st
      using that ne(3,4) [of y] by (simp add: zero_cell_other)
  qed
  ultimately show ?thesis by (simp add: zero_edges_def Let_def)
qed

lemma zero_cell_keeps_zero:
  "ex s ! i = 0 \<Longrightarrow> ex (zero_cell j s) ! i = 0"
  "ey s ! i = 0 \<Longrightarrow> ey (zero_cell j s) ! i = 0"
  "hz s ! i = 0 \<Longrightarrow> hz (zero_cell j s) ! i = 0"
  by (simp_all add: zero_cell_def nth_update_zero)

lemma zero_edges_keeps_zero:
  shows "ex s ! i = 0 \<Longrightarrow> ex (zero_edges s) ! i = 0"
    and "ey s ! i = 0 \<Longrightarrow> ey (zero_edges s) ! i = 0"
    and "hz s ! i = 0 \<Longrightarrow> hz (zero_edges s) ! i = 0"
  unfolding zero_edges_def Let_def
  by (rule fold_pres, simp add: zero_cell_keeps_zero, rule fold_pres,
      simp add: zero_cell_keeps_zero, assumption)+

subsection \<open>Magnitudes and statistics\<close>

definition magnitude_at :: "em_solver \<Rightarrow> nat \<Rightarrow> real" where
  "magnitude_at s i = sqrt (ex s ! i * ex s ! i + ey s ! i * ey s ! i)"

lemma fold_magnitude:
  "fold (magnitude_cell alpha) is (s, mx, sm) = (s', mx', sm') \<Longrightarrow>
   ex s' = ex s \<and> ey s' = ey s \<and> hz s' = hz s \<and> pmlMask s' = pmlMask s \<and>
   time s' = time s \<and>
   sm' = sm + sum_list (map (\<lambda>i. if mask_at (pmlMask s) i then 0 else magnitude_at s i) is)"
proof (induction "is" arbitrary: s mx sm)
  case Nil
  then show ?case by simp
next
  case (Cons i "is")
  obtain s1 mx1 sm1 where one: "magnitude_cell alpha i (s, mx, sm) = (s1, mx1, sm1)"
    by (cases "magnitude_cell alpha i (s, mx, sm)")
  then have s1: "ex s1 = ex s" "ey s1 = ey s" "hz s1 = hz s" "pmlMask s1 = pmlMask s"
    "time s1 = time s"
    "sm1 = sm + (if mask_at (pmlMask s) i then 0 else magnitude_at s i)"
    by (auto simp add: magnitude_cell_def Let_def magnitude_at_def split: if_splits)
  from Cons.prems one have "fold (magnitude_cell alpha) is (s1, mx1, sm1) = (s', mx', sm')"
    by simp
  note ih = Cons.IH [OF this]
  have meq: "magnitude_at s1 = magnitude_at s"
    by (rule ext) (simp add: magnitude_at_def s1)
  from ih s1(1-5) have A: "ex s' = ex s \<and> ey s' = ey s \<and> hz s' = hz s \<and>
      pmlMask s' = pmlMask s \<and> time s' = time s" by simp
  from ih have "sm' = sm1 +
      sum_list (map (\<lambda>i. if mask_at (pmlMask s1) i then 0 else magnitude_at s1 i) is)"
    by simp
  then have "sm' = sm1 +
      sum_list (map (\<lambda>i. if mask_at (pmlMask s) i then 0 else magnitude_at s i) is)"
    by (simp only: s1(4) meq)
  with s1(6) have B: "sm' = sm +
      sum_list (map (\<lambda>i. if mask_at (pmlMask s) i then 0 else magnitude_at s i) (i # is))"
    by simp
  from A B show ?case by blast
qed

lemma compute_stats_fields:
  "ex (compute_stats dtv s) = ex s \<and> ey (compute_stats dtv s) = ey s \<and>
   hz (compute_stats dtv s) = hz s"
proof -
  obtain s' mx sm where f: "fold (magnitude_cell (min 1 (dtv / avgTau s)))
      [0..<length (instantaneous s)] (s, 0, 0) = (s', mx, sm)"
    using prod_cases3 by blast
  from fold_magnitude [OF f] f show ?thesis
    by (simp add: compute_stats_def Let_def)
qed

lemma compute_stats_mean:
  "meanInstantaneous (stats (compute_stats dtv s)) =
     sum_list (map (\<lambda>i. if mask_at (pmlMask s) i then 0 else magnitude_at s i)
                [0..<length (instantaneous s)])
     / real (length (instantaneous s))"
proof -
  obtain s' mx sm where f: "fold (magnitude_cell (min 1 (dtv / avgTau s)))
      [0..<length (instantaneous s)] (s, 0, 0) = (s', mx, sm)"
    using prod_cases3 by blast
  have "same_setup s (fst (fold (magnitude_cell (min 1 (dtv / avgTau s)))
      [0..<length (instantaneous s)] (s, 0, 0)))"
    by (rule fold_pres, erule magnitude_cell_setup) (simp add: same_setup_refl)
  with f have len: "length (instantaneous s') = length (instantaneous s)"
    by (simp add: same_setup_def)
  from fold_magnitude [OF f] f len show ?thesis
    by (simp add: compute_stats_def Let_def)
qed

subsection \<open>A solver at rest\<close>

definition fields_zero :: "em_solver \<Rightarrow> bool" where
  "fields_zero s \<longleftrightarrow>
     ex s = replicate (nx s * ny s) 0 \<and> ey s = replicate (nx s * ny s) 0 \<and>
     hz s = replicate (nx s * ny s) 0"

lemma cell_index_bound: "x < nx0 \<Longrightarrow> y < ny0 \<Longrightarrow> y * nx0 + x < nx0 * (ny0 :: nat)"
proof -
  assume x: "x < nx0" and y: "y < ny0"
  then have "y * nx0 + x < (y + 1) * nx0" by simp
  also have "\<dots> \<le> ny0 * nx0" using y by (intro mult_le_mono1) simp
  finally show ?thesis by (simp add: mult.commute)
qed

lemma zero_metal_rest: "fields_zero s \<Longrightarrow> fields_zero (zero_metal s)"
proof (cases "metalMask s")
  case None
  then show "fields_zero s \<Longrightarrow> ?thesis" by (simp add: zero_metal_def)
next
  case (Some metal)
  assume z: "fields_zero s"
  have "fields_zero (fold (\<lambda>i st. if metal ! i
            then st\<lparr>ex := (ex st)[i := 0], ey := (ey st)[i := 0], hz := (hz st)[i := 0]\<rparr>
            else st) [0..<length metal] s)"
  proof (rule fold_pres)
    show "fields_zero s" by (rule z)
  qed (simp add: fields_zero_def replicate_update_same)
  with Some show ?thesis by (simp add: zero_metal_def)
qed

lemma hz_cell_rest:
  assumes "fields_zero st" and "idx + nx st < nx st * ny st"
  shows "fields_zero (hz_cell dtv idx st)"
proof -
  from assms(2) have "nx st \<noteq> 0" by (cases "nx st") simp_all
  with assms(2) have "idx < nx st * ny st" "idx + 1 < nx st * ny st" by simp_all
  with assms show ?thesis
    by (auto simp add: fields_zero_def hz_cell_def Let_def replicate_update_same)
qed

lemma hz_cell_dims: "nx (hz_cell dtv idx st) = nx st \<and> ny (hz_cell dtv idx st) = ny st"
  by (simp add: hz_cell_def Let_def)

lemma update_hz_rest:
  assumes "fields_zero s"
  shows "fields_zero (update_hz dtv s)"
proof -
  let ?P = "\<lambda>st. nx st = nx s \<and> ny st = ny s \<and> fields_zero st"
  have "?P (update_hz dtv s)"
    unfolding update_hz_def
  proof (rule fold_pres_set)
    show "?P s" using assms by simp
    fix y st
    assume y: "y \<in> set [0..<ny s - 1]" and st: "?P st"
    show "?P (fold (\<lambda>x. hz_cell dtv (y * nx s + x)) [0..<nx s - 1] st)"
    proof (rule fold_pres_set)
      show "?P st" by fact
      fix x st'
      assume x: "x \<in> set [0..<nx s - 1]" and st': "?P st'"
      from x y have "(y + 1) * nx s + x < nx s * ny s"
        by (intro cell_index_bound) simp_all
      then have "y * nx s + x + nx st' < nx st' * ny st'" using st' by (simp add: algebra_simps)
      with st' show "?P (hz_cell dtv (y * nx s + x) st')"
        by (simp add: hz_cell_dims hz_cell_rest)
    qed
  qed
  then show ?thesis by simp
qed

lemma e_cell_rest:
  assumes "fields_zero st" and "idx < nx st * ny st"
  shows "fields_zero (e_cell dtv idx st)"
proof -
  have "idx - nx st < nx st * ny st" "idx - 1 < nx st * ny st" using assms(2) by simp_all
  with assms show ?thesis
    by (auto simp add: fields_zero_def e_cell_def Let_def replicate_update_same)
qed

lemma e_cell_dims: "nx (e_cell dtv idx st) = nx st \<and> ny (e_cell dtv idx st) = ny st"
  by (simp add: e_cell_def Let_def)

lemma update_e_rest:
  assumes "fields_zero s"
  shows "fields_zero (update_e dtv s)"
proof -
  let ?P = "\<lambda>st. nx st = nx s \<and> ny st = ny s \<and> fields_zero st"
  have "?P (update_e dtv s)"
    unfolding update_e_def
  proof (rule fold_pres_set)
    show "?P s" using assms by simp
    fix y st
    assume y: "y \<in> set [1..<ny s - 1]" and st: "?P st"
    show "?P (fold (\<lambda>x. e_cell dtv (y * nx s + x)) [1..<nx s - 1] st)"
    proof (rule fold_pres_set)
      show "?P st" by fact
      fix x st'
      assume x: "x \<in> set [1..<nx s - 1]" and st': "?P st'"
      from x y have "y * nx s + x < nx s * ny s"
        by (intro cell_index_bound) auto
      with st' show "?P (e_cell dtv (y * nx s + x) st')"
        by (simp add: e_cell_dims e_cell_rest)
    qed
  qed
  then show ?thesis by simp
qed

lemma fields_zero_nth:
  "fields_zero s \<Longrightarrow> i < nx s * ny s \<Longrightarrow> ex s ! i = 0 \<and> ey s ! i = 0 \<and> hz s ! i = 0"
  by (simp add: fields_zero_def)

lemma constructed_rest: "fields_zero (EMSolver2D config)"
  by (simp add: fields_zero_def EMSolver2D_def)

lemma setSources_rest: "fields_zero s \<Longrightarrow> fields_zero (setSources srcs s)"
  by (simp add: fields_zero_def setSources_def)

lemma setBarrier_rest: "fields_zero s \<Longrightarrow> fields_zero (setBarrierFromShapes shapes s)"
  by (simp add: fields_zero_def setBarrierFromShapes_def split: option.splits)

section \<open>A fixed step at one cell\<close>

text \<open>The solver after the \<open>Hz\<close> update, and after the update of \<open>Ex\<close> and \<open>Ey\<close>.\<close>

definition after_hz :: "real \<Rightarrow> em_solver \<Rightarrow> em_solver" where
  "after_hz dtv s = update_hz dtv (zero_metal s)"

definition after_e :: "real \<Rightarrow> em_solver \<Rightarrow> em_solver" where
  "after_e dtv s = update_e dtv (inject_hz (after_hz dtv s))"

lemma advance_stages:
  "advance dtv s = compute_stats dtv (zero_edges (inject_sources (after_e dtv s)))"
  by (simp add: advance_def after_e_def after_hz_def)

lemma after_hz_setup: "same_setup s (after_hz dtv s)"
  unfolding after_hz_def
  by (rule same_setup_trans [OF zero_metal_setup update_hz_setup])

lemma after_e_setup: "same_setup s (after_e dtv s)"
  unfolding after_e_def
  by (rule same_setup_trans [OF after_hz_setup],
      rule same_setup_trans [OF inject_hz_setup update_e_setup])

lemma after_hz_time: "time (after_hz dtv s) = time s"
  by (simp add: after_hz_def update_hz_time zero_metal_time)

lemma after_e_time: "time (after_e dtv s) = time s"
  by (simp add: after_e_def update_e_time inject_hz_time after_hz_time)

lemma after_e_hz:
  assumes "i < length (hz s)"
  shows "hz (after_e dtv s) ! i =
     hz (after_hz dtv s) ! i +
     sum_list (map (hz_signal (time s)) (filter (\<lambda>source. index source = i) (sources s)))"
proof -
  from after_hz_setup [of s dtv]
  have "length (hz (after_hz dtv s)) = length (hz s)" "sources (after_hz dtv s) = sources s"
    by (simp_all add: same_setup_def)
  with assms show ?thesis
    by (simp add: after_e_def update_e_hz inject_hz_nth after_hz_time)
qed

lemma after_hz_metal:
  assumes "mask_at (metalMask s) i"
    and "i < length (ex s)" and "i < length (ey s)" and "i < length (hz s)"
  shows "ex (after_hz dtv s) ! i = 0 \<and> ey (after_hz dtv s) ! i = 0 \<and> hz (after_hz dtv s) ! i = 0"
proof -
  from zero_metal_setup [of s] have "metalMask (zero_metal s) = metalMask s"
    by (simp add: same_setup_def)
  with assms(1) have "mask_at (metalMask (zero_metal s)) i" by simp
  from update_hz_metal [OF this] update_hz_e [of dtv "zero_metal s"] zero_metal_nth [OF assms]
  show ?thesis by (simp add: after_hz_def)
qed

lemma after_e_metal:
  assumes "mask_at (metalMask s) i"
    and "i < length (ex s)" and "i < length (ey s)" and "i < length (hz s)"
  shows "ex (after_e dtv s) ! i = 0 \<and> ey (after_e dtv s) ! i = 0"
proof -
  let ?s3 = "inject_hz (after_hz dtv s)"
  from same_setup_trans [OF after_hz_setup inject_hz_setup, of s dtv]
  have "metalMask ?s3 = metalMask s" by (simp add: same_setup_def)
  with assms(1) have "mask_at (metalMask ?s3) i" by simp
  from update_e_metal [OF this] inject_hz_e [of "after_hz dtv s"] after_hz_metal [OF assms]
  show ?thesis by (simp add: after_e_def)
qed

lemma advance_interior:
  assumes "interior (nx s) (ny s) i"
  shows "ex (advance dtv s) ! i = ex (inject_sources (after_e dtv s)) ! i"
    and "ey (advance dtv s) ! i = ey (inject_sources (after_e dtv s)) ! i"
    and "hz (advance dtv s) ! i = hz (inject_sources (after_e dtv s)) ! i"
proof -
  let ?s5 = "inject_sources (after_e dtv s)"
  from same_setup_trans [OF after_e_setup inject_sources_setup, of s dtv]
  have "nx ?s5 = nx s" "ny ?s5 = ny s" by (simp_all add: same_setup_def)
  with assms have "interior (nx ?s5) (ny ?s5) i" by simp
  from zero_edges_interior [OF this] compute_stats_fields [of dtv "zero_edges ?s5"]
  show "ex (advance dtv s) ! i = ex ?s5 ! i" "ey (advance dtv s) ! i = ey ?s5 ! i"
    "hz (advance dtv s) ! i = hz ?s5 ! i"
    by (simp_all add: advance_stages)
qed

lemma advance_keeps_zero:
  shows "ex (inject_sources (after_e dtv s)) ! i = 0 \<Longrightarrow> ex (advance dtv s) ! i = 0"
    and "ey (inject_sources (after_e dtv s)) ! i = 0 \<Longrightarrow> ey (advance dtv s) ! i = 0"
  using compute_stats_fields [of dtv "zero_edges (inject_sources (after_e dtv s))"]
  by (simp_all add: advance_stages zero_edges_keeps_zero)

text \<open>
  A single source at a cell inside the edge ring that no mask marks: what the step leaves
  in the excited component.
\<close>

lemma single_source_step:
  assumes "sources s = [source]" and "index source = i"
    and "interior (nx s) (ny s) i"
    and "i < length (ex s)" and "i < length (ey s)" and "i < length (hz s)"
    and "\<not> mask_at (metalMask s) i" and "\<not> mask_at (pmlMask s) i"
  defines "sv \<equiv> amplitude source * evalSourceSignal source (time s)"
  shows "excite source = ExciteHz \<Longrightarrow> injection source = Hard \<Longrightarrow> hz (advance dtv s) ! i = sv"
    and "excite source = ExciteEx \<Longrightarrow> injection source = Hard \<Longrightarrow> ex (advance dtv s) ! i = sv"
    and "excite source = ExciteEy \<Longrightarrow> injection source = Hard \<Longrightarrow> ey (advance dtv s) ! i = sv"
    and "excite source = ExciteEx \<Longrightarrow> injection source = Soft \<Longrightarrow>
           ex (advance dtv s) ! i = ex (after_e dtv s) ! i + sv"
    and "excite source = ExciteEy \<Longrightarrow> injection source = Soft \<Longrightarrow>
           ey (advance dtv s) ! i = ey (after_e dtv s) ! i + sv"
    and "excite source = ExciteHz \<Longrightarrow> injection source = Soft \<Longrightarrow>
           hz (advance dtv s) ! i = hz (after_hz dtv s) ! i + hz_signal (time s) source + sv"
proof -
  let ?s4 = "after_e dtv s"
  from after_e_setup [of s dtv]
  have su: "sources ?s4 = [source]" "metalMask ?s4 = metalMask s" "pmlMask ?s4 = pmlMask s"
    "length (ex ?s4) = length (ex s)" "length (ey ?s4) = length (ey s)"
    "length (hz ?s4) = length (hz s)"
    by (simp_all add: same_setup_def assms(1))
  have inj: "inject_sources ?s4 = inject_source (time s) source ?s4"
    by (simp add: inject_sources_single [OF su(1)] after_e_time)
  have hz4: "hz ?s4 ! i = hz (after_hz dtv s) ! i + hz_signal (time s) source"
    using after_e_hz [OF assms(6), of dtv] by (simp add: assms(1,2))
  note adv = advance_interior [OF assms(3), of dtv, unfolded inj]
  note unmasked = assms(7,8) [folded su(2,3)]
  show "excite source = ExciteHz \<Longrightarrow> injection source = Hard \<Longrightarrow> hz (advance dtv s) ! i = sv"
    using unmasked assms(6) su(6)
    by (simp add: adv inject_source_def Let_def assms(2) sv_def)
  show "excite source = ExciteEx \<Longrightarrow> injection source = Hard \<Longrightarrow> ex (advance dtv s) ! i = sv"
    using unmasked assms(4) su(4)
    by (simp add: adv inject_source_def Let_def assms(2) sv_def)
  show "excite source = ExciteEy \<Longrightarrow> injection source = Hard \<Longrightarrow> ey (advance dtv s) ! i = sv"
    using unmasked assms(5) su(5)
    by (simp add: adv inject_source_def Let_def assms(2) sv_def)
  show "excite source = ExciteEx \<Longrightarrow> injection source = Soft \<Longrightarrow>
           ex (advance dtv s) ! i = ex (after_e dtv s) ! i + sv"
    using unmasked assms(4) su(4)
    by (simp add: adv inject_source_def Let_def assms(2) sv_def)
  show "excite source = ExciteEy \<Longrightarrow> injection source = Soft \<Longrightarrow>
           ey (advance dtv s) ! i = ey (after_e dtv s) ! i + sv"
    using unmasked assms(5) su(5)
    by (simp add: adv inject_source_def Let_def assms(2) sv_def)
  show "excite source = ExciteHz \<Longrightarrow> injection source = Soft \<Longrightarrow>
           hz (advance dtv s) ! i = hz (after_hz dtv s) ! i + hz_signal (time s) source + sv"
    using unmasked assms(6) su(6) hz4
    by (simp add: adv inject_source_def Let_def assms(2) sv_def)
qed

text \<open>A cell that a mask marks: the second injection block leaves it alone.\<close>

lemma masked_cell_step:
  assumes "mask_at (metalMask s) i \<or> mask_at (pmlMask s) i"
    and "interior (nx s) (ny s) i" and "i < length (hz s)"
  shows "hz (advance dtv s) ! i =
     hz (after_hz dtv s) ! i +
     sum_list (map (hz_signal (time s)) (filter (\<lambda>source. index source = i) (sources s)))"
proof -
  from after_e_setup [of s dtv]
  have "metalMask (after_e dtv s) = metalMask s" "pmlMask (after_e dtv s) = pmlMask s"
    by (simp_all add: same_setup_def)
  with assms(1) have "mask_at (metalMask (after_e dtv s)) i \<or> mask_at (pmlMask (after_e dtv s)) i"
    by simp
  from inject_sources_masked_cell [OF this] show ?thesis
    by (simp add: advance_interior(3) [OF assms(2)] after_e_hz [OF assms(3)])
qed

lemma metal_cell_step:
  assumes "mask_at (metalMask s) i"
    and "i < length (ex s)" and "i < length (ey s)" and "i < length (hz s)"
  shows "ex (advance dtv s) ! i = 0" and "ey (advance dtv s) ! i = 0"
    and "interior (nx s) (ny s) i \<Longrightarrow>
         hz (advance dtv s) ! i =
           sum_list (map (hz_signal (time s)) (filter (\<lambda>source. index source = i) (sources s)))"
proof -
  from after_e_setup [of s dtv]
  have "metalMask (after_e dtv s) = metalMask s" by (simp add: same_setup_def)
  with assms(1) have "mask_at (metalMask (after_e dtv s)) i \<or> mask_at (pmlMask (after_e dtv s)) i"
    by simp
  from inject_sources_masked_cell [OF this] after_e_metal [OF assms, of dtv]
  have "ex (inject_sources (after_e dtv s)) ! i = 0" "ey (inject_sources (after_e dtv s)) ! i = 0"
    by simp_all
  then show "ex (advance dtv s) ! i = 0" "ey (advance dtv s) ! i = 0"
    by (simp_all add: advance_keeps_zero)
  show "hz (advance dtv s) ! i =
      sum_list (map (hz_signal (time s)) (filter (\<lambda>source. index source = i) (sources s)))"
    if "interior (nx s) (ny s) i"
    using masked_cell_step [OF _ that assms(4), of dtv] assms(1) after_hz_metal [OF assms, of dtv]
    by simp
qed

section \<open>Concrete runs\<close>

text \<open>
  A continuous-wave source of amplitude 1 and phase \<open>\<pi>/2\<close> at the world point \<open>(1, 1)\<close>,
  with the editor's defaults otherwise (soft injection into \<open>Hz\<close>); a metal disc of radius
  \<open>0.5\<close> at the same point; and a 6 by 6 grid of unit cells, whose boundary band is two
  cells wide.
\<close>

definition demo_source :: source_object where
  "demo_source =
     \<lparr> so_position = (1, 1), so_active = True, so_amplitude = 1, so_phase = pi / 2,
       so_frequency = 1.5, so_waveform = None, so_pulseWidth = None, so_pulseDelay = None,
       so_injection = None, so_excite = None, so_polarizationAngle = None \<rparr>"

definition metal_disc :: shape_object where
  "metal_disc =
     \<lparr> kind = ''circle'', center = (1, 1), radius = Some 0.5, shape_size = None,
       angles_z = None,
       shape_material = Some \<lparr> preset = ''metal'', epsR = Some 1, sigma = Some 50 \<rparr> \<rparr>"

definition wide_config :: solver_config where
  "wide_config =
     \<lparr> cfg_domain = \<lparr> worldSize = (5, 5), grid = (6, 6), origin = (0, 0) \<rparr>,
       cfg_solver = \<lparr> speed = Num 1, attenuation = Some 0.1 \<rparr>,
       cfg_avgTau = None, cfg_cfl = None, cfg_pmlWidth = None \<rparr>"

lemma demo_dims: "nx_of demo_config = 4" "ny_of demo_config = 4"
  by (simp_all add: nx_of_def ny_of_def demo_config_def)

lemma demo_pmlMask:
  "pmlMask (EMSolver2D demo_config) =
     Some [True, True, True, True, True, False, False, True,
           True, False, False, True, True, True, True, True]"
proof -
  have "usablePmlWidth_of demo_config = 1"
    by (simp add: usablePmlWidth_of_def demo_dims) (simp add: demo_config_def clamp_def)
  moreover have "buildPmlMask 4 4 1 =
     Some [True, True, True, True, True, False, False, True,
           True, False, False, True, True, True, True, True]"
    by code_simp
  ultimately show ?thesis by (simp add: EMSolver2D_def demo_dims)
qed

lemma demo_index: "indexFromWorld (1, 1) (cfg_domain demo_config) 4 4 = 5"
  by (simp add: indexFromWorld_def demo_config_def js_round_def)

lemma demo_sources:
  "sources (setSources [demo_source] (EMSolver2D demo_config)) =
     [\<lparr> index = 5, amplitude = 1, phase = pi / 2, frequency = 1.5, waveform = CW,
        pulseWidth = 0.4, pulseDelay = 0, injection = Soft, excite = ExciteHz,
        polarizationAngle = 0 \<rparr>]"
  by (simp add: setSources_def demo_source_def EMSolver2D_def demo_dims demo_index)

lemma demo_state:
  fixes s
  defines "s \<equiv> setSources [demo_source] (EMSolver2D demo_config)"
  shows "nx s = 4" and "ny s = 4" and "time s = 0" and "metalMask s = None"
    and "length (ex s) = 16" and "length (ey s) = 16" and "length (hz s) = 16"
    and "length (instantaneous s) = 16"
    and "pmlMask s = pmlMask (EMSolver2D demo_config)" and "fields_zero s"
  by (simp_all add: s_def setSources_rest constructed_rest)
     (simp_all add: setSources_def EMSolver2D_def demo_dims)

lemma wide_dims: "nx_of wide_config = 6" "ny_of wide_config = 6"
  by (simp_all add: nx_of_def ny_of_def wide_config_def)

lemma wide_pml_cell: "mask_at (pmlMask (EMSolver2D wide_config)) 7"
proof -
  have "usablePmlWidth_of wide_config = 2"
    by (simp add: usablePmlWidth_of_def wide_dims) (simp add: wide_config_def clamp_def)
  moreover have "mask_at (buildPmlMask 6 6 2) 7"
    by code_simp
  ultimately show ?thesis by (simp add: EMSolver2D_def wide_dims)
qed

lemma wide_index: "indexFromWorld (1, 1) (cfg_domain wide_config) 6 6 = 7"
  by (simp add: indexFromWorld_def wide_config_def js_round_def)

lemma wide_state:
  fixes s
  defines "s \<equiv> setSources [demo_source] (EMSolver2D wide_config)"
  shows "nx s = 6" and "ny s = 6" and "time s = 0" and "metalMask s = None"
    and "length (hz s) = 36"
    and "pmlMask s = pmlMask (EMSolver2D wide_config)" and "fields_zero s"
    and "map index (sources s) = [7]"
    and "map (hz_signal 0) (sources s) = [1]"
  by (simp_all add: s_def setSources_rest constructed_rest)
     (simp_all add: setSources_def EMSolver2D_def wide_dims wide_index demo_source_def hz_signal_def)

lemma rest_after_hz:
  assumes "fields_zero s" and "i < nx s * ny s"
  shows "hz (after_hz dtv s) ! i = 0"
proof -
  have "fields_zero (after_hz dtv s)"
    unfolding after_hz_def by (intro update_hz_rest zero_metal_rest assms(1))
  moreover from after_hz_setup [of s dtv]
  have "nx (after_hz dtv s) = nx s" "ny (after_hz dtv s) = ny s" by (simp_all add: same_setup_def)
  ultimately show ?thesis using assms(2) by (simp add: fields_zero_nth)
qed

text \<open>
  C2, at a failing input. On the 4 by 4 demo grid the default source sits at cell 5, inside
  the edge ring and outside the boundary band (no metal). On the first step the \<open>Hz\<close>
  update leaves 0 at the cell and the signal is 1, so soft injection should leave 1; the
  step leaves 2, because the first injection block has already added the same sine.
\<close>

theorem soft_hz_source_added_twice:
  "let s = setSources [demo_source] (EMSolver2D demo_config);
       source = \<lparr> index = 5, amplitude = 1, phase = pi / 2, frequency = 1.5, waveform = CW,
                  pulseWidth = 0.4, pulseDelay = 0, injection = Soft, excite = ExciteHz,
                  polarizationAngle = 0 \<rparr>
   in sources s = [source] \<and> interior (nx s) (ny s) 5 \<and>
      \<not> mask_at (metalMask s) 5 \<and> \<not> mask_at (pmlMask s) 5 \<and>
      hz (after_hz (dt s) s) ! 5 = 0 \<and>
      amplitude source * evalSourceSignal source (time s) = 1 \<and>
      hz (advance (dt s) s) ! 5 = 2"
proof -
  let ?s = "setSources [demo_source] (EMSolver2D demo_config)"
  let ?src = "\<lparr> index = 5, amplitude = 1, phase = pi / 2, frequency = 1.5, waveform = CW,
                  pulseWidth = 0.4, pulseDelay = 0, injection = Soft, excite = ExciteHz,
                  polarizationAngle = 0 \<rparr>"
  note st = demo_state
  have src: "sources ?s = [?src]" by (rule demo_sources)
  have int: "interior (nx ?s) (ny ?s) 5" by (simp add: st interior_def)
  have nm: "\<not> mask_at (metalMask ?s) 5" by (simp add: st mask_at_def)
  have np: "\<not> mask_at (pmlMask ?s) 5" by (simp add: st demo_pmlMask mask_at_def)
  have rest: "hz (after_hz (dt ?s) ?s) ! 5 = 0"
    by (rule rest_after_hz) (simp_all add: st)
  have sv: "amplitude ?src * evalSourceSignal ?src (time ?s) = 1"
    by (simp add: evalSourceSignal_def st)
  have leg: "hz_signal (time ?s) ?src = 1"
    by (simp add: hz_signal_def st)
  have "hz (advance (dt ?s) ?s) ! 5 =
      hz (after_hz (dt ?s) ?s) ! 5 + hz_signal (time ?s) ?src
        + amplitude ?src * evalSourceSignal ?src (time ?s)"
    by (rule single_source_step(6) [OF src _ int _ _ _ nm np]) (simp_all add: st)
  then have "hz (advance (dt ?s) ?s) ! 5 = 2"
    unfolding rest leg sv by simp
  with src int nm np rest sv show ?thesis unfolding Let_def by blast
qed

text \<open>
  C3, at a failing input. On the 6 by 6 grid the same source sits at cell 7, which lies
  in the boundary band and inside the edge ring. The \<open>Hz\<close> update leaves 0 there; the
  second injection block skips the source; the step nevertheless leaves 1 in \<open>Hz\<close> at
  the cell, the sine that the first injection block added.
\<close>

theorem pml_source_still_injected:
  "let s = setSources [demo_source] (EMSolver2D wide_config)
   in map index (sources s) = [7] \<and> mask_at (pmlMask s) 7 \<and>
      inject_sources s = s \<and>
      hz (after_hz (dt s) s) ! 7 = 0 \<and>
      hz (advance (dt s) s) ! 7 = 1"
proof -
  let ?s = "setSources [demo_source] (EMSolver2D wide_config)"
  note st = wide_state
  have pml: "mask_at (pmlMask ?s) 7" by (simp add: st wide_pml_cell)
  have int: "interior (nx ?s) (ny ?s) 7" by (simp add: st interior_def)
  obtain source where one: "sources ?s = [source]" and idx: "index source = 7"
    using st(8) by (cases "sources ?s") auto
  have skip: "inject_sources ?s = ?s"
    using pml by (simp add: inject_sources_single [OF one] inject_source_skipped idx)
  have rest: "hz (after_hz (dt ?s) ?s) ! 7 = 0"
    by (rule rest_after_hz) (simp_all add: st)
  have "sum_list (map (hz_signal (time ?s)) (filter (\<lambda>source. index source = 7) (sources ?s))) = 1"
    using st(9) by (simp add: one idx st(3))
  with masked_cell_step [OF disjI2 [OF pml] int, of "dt ?s"] rest
  have "hz (advance (dt ?s) ?s) ! 7 = 1" by (simp add: st)
  with st(8) pml skip rest show ?thesis unfolding Let_def by blast
qed

text \<open>
  C4. In every fixed step, between the update of \<open>Hz\<close> and the update of \<open>Ex\<close> and \<open>Ey\<close>,
  the first injection block adds to \<open>Hz\<close>, at each cell, the value
  \<open>amplitude * sin (2 * pi * frequency * t + phase)\<close> of every active source placed at that
  cell, with \<open>t\<close> the time before the step. The sum runs over all sources at the cell:
  neither the waveform, nor the injection mode, nor the excited component, nor a mask is
  consulted. \<open>Ex\<close> and \<open>Ey\<close> are not touched by this block.
\<close>

theorem hz_injection_every_source:
  "let s1 = update_hz dtv (zero_metal s);
       s2 = inject_hz s1
   in advance dtv s = compute_stats dtv (zero_edges (inject_sources (update_e dtv s2))) \<and>
      ex s2 = ex s1 \<and> ey s2 = ey s1 \<and>
      (\<forall>i < length (hz s).
         hz s2 ! i =
           hz s1 ! i +
           sum_list (map (\<lambda>source. amplitude source *
                           sin (2 * pi * frequency source * time s + phase source))
                      (filter (\<lambda>source. index source = i) (sources s))))"
proof -
  let ?s1 = "update_hz dtv (zero_metal s)"
  have s1: "?s1 = after_hz dtv s" by (simp add: after_hz_def)
  from after_hz_setup [of s dtv]
  have su: "length (hz ?s1) = length (hz s)" "sources ?s1 = sources s"
    by (simp_all add: same_setup_def s1)
  have t: "time ?s1 = time s" by (simp add: s1 after_hz_time)
  have sig: "hz_signal (time s) = (\<lambda>source. amplitude source *
                           sin (2 * pi * frequency source * time s + phase source))"
    by (rule ext) (simp add: hz_signal_def)
  have "hz (inject_hz ?s1) ! i =
           hz ?s1 ! i +
           sum_list (map (\<lambda>source. amplitude source *
                           sin (2 * pi * frequency source * time s + phase source))
                      (filter (\<lambda>source. index source = i) (sources s)))"
    if "i < length (hz s)" for i
    using inject_hz_nth [of i ?s1] that unfolding su t sig by simp
  then show ?thesis
    unfolding Let_def using inject_hz_e [of ?s1] by (simp add: advance_def)
qed

text \<open>
  A Gaussian pulse with hard injection into \<open>Ex\<close>, placed in the boundary band of the
  6 by 6 grid: the first block still adds its sine, 1, to \<open>Hz\<close> at cell 7.
\<close>

definition pulse_source :: source_object where
  "pulse_source =
     demo_source\<lparr>so_waveform := Some Gaussian, so_injection := Some Hard,
                 so_excite := Some ExciteEx\<rparr>"

theorem hz_injection_every_source_witness:
  "let s = setSources [pulse_source] (EMSolver2D wide_config);
       s1 = update_hz (dt s) (zero_metal s)
   in map waveform (sources s) = [Gaussian] \<and> map injection (sources s) = [Hard] \<and>
      map excite (sources s) = [ExciteEx] \<and> map index (sources s) = [7] \<and>
      mask_at (pmlMask s) 7 \<and>
      hz (inject_hz s1) ! 7 = hz s1 ! 7 + 1"
proof -
  let ?s = "setSources [pulse_source] (EMSolver2D wide_config)"
  have src: "sources ?s =
     [\<lparr> index = 7, amplitude = 1, phase = pi / 2, frequency = 1.5, waveform = Gaussian,
        pulseWidth = 0.4, pulseDelay = 0, injection = Hard, excite = ExciteEx,
        polarizationAngle = 0 \<rparr>]"
    by (simp add: setSources_def pulse_source_def demo_source_def EMSolver2D_def wide_dims
          wide_index)
  have st: "time ?s = 0" "length (hz ?s) = 36" "pmlMask ?s = pmlMask (EMSolver2D wide_config)"
    by (simp_all add: setSources_def EMSolver2D_def wide_dims)
  have seven: "7 < length (hz ?s)" by (simp add: st)
  from hz_injection_every_source [of "dt ?s" ?s, unfolded Let_def] seven
  have "hz (inject_hz (update_hz (dt ?s) (zero_metal ?s))) ! 7 =
      hz (update_hz (dt ?s) (zero_metal ?s)) ! 7 +
      sum_list (map (\<lambda>source. amplitude source *
                           sin (2 * pi * frequency source * time ?s + phase source))
                      (filter (\<lambda>source. index source = 7) (sources ?s)))"
    by blast
  then have "hz (inject_hz (update_hz (dt ?s) (zero_metal ?s))) ! 7 =
      hz (update_hz (dt ?s) (zero_metal ?s)) ! 7 + 1"
    by (simp add: src st(1))
  then show ?thesis
    unfolding Let_def by (simp add: src st(3) wide_pml_cell)
qed

lemma advance_mean:
  "meanInstantaneous (stats (advance dtv s)) =
     sum_list (map (\<lambda>i. if mask_at (pmlMask s) i then 0 else magnitude_at (advance dtv s) i)
                [0..<length (instantaneous s)])
     / real (length (instantaneous s))"
proof -
  let ?s6 = "zero_edges (inject_sources (after_e dtv s))"
  have "same_setup s ?s6"
    by (rule same_setup_trans [OF after_e_setup],
        rule same_setup_trans [OF inject_sources_setup zero_edges_setup])
  then have su: "pmlMask ?s6 = pmlMask s" "length (instantaneous ?s6) = length (instantaneous s)"
    by (simp_all add: same_setup_def)
  have m: "magnitude_at (advance dtv s) = magnitude_at ?s6"
    using compute_stats_fields [of dtv ?s6]
    by (intro ext) (simp add: magnitude_at_def advance_stages)
  show ?thesis
    unfolding m using compute_stats_mean [of dtv ?s6, unfolded su]
    by (simp add: advance_stages)
qed

text \<open>
  C5, as the code has it. After a fixed step the mean statistic is the sum of
  \<open>sqrt (Ex\<^sup>2 + Ey\<^sup>2)\<close> over the cells outside the boundary mask, divided by the number of
  all cells of the grid, the masked ones included: it is the mean of the instantaneous
  magnitude array, in which the masked cells hold zero.
\<close>

theorem mean_over_all_cells:
  "meanInstantaneous (stats (advance dtv s)) =
     sum_list (map (\<lambda>i. if mask_at (pmlMask s) i then 0
                         else sqrt (ex (advance dtv s) ! i * ex (advance dtv s) ! i +
                                    ey (advance dtv s) ! i * ey (advance dtv s) ! i))
                [0..<length (instantaneous s)])
     / real (length (instantaneous s))"
proof -
  have m: "magnitude_at (advance dtv s) =
      (\<lambda>i. sqrt (ex (advance dtv s) ! i * ex (advance dtv s) ! i +
                  ey (advance dtv s) ! i * ey (advance dtv s) ! i))"
    by (rule ext) (simp add: magnitude_at_def)
  show ?thesis by (rule advance_mean [of dtv s, unfolded m])
qed

text \<open>
  C5, the counterexample. On the 4 by 4 demo grid the boundary mask marks the 12 cells of
  the edge ring and leaves the cells 5, 6, 9 and 10. With a hard \<open>Ex\<close> source of value 1 at
  cell 5 the magnitudes of these four cells sum to at least 1, and the statistic after
  the first step is that sum divided by 16, not by 4.
\<close>

definition hard_ex_source :: source_object where
  "hard_ex_source = demo_source\<lparr>so_injection := Some Hard, so_excite := Some ExciteEx\<rparr>"

lemma upt_16: "[0..<16] = [0, 1, 2, 3, 4, 5, 6, 7, 8, 9, 10, 11, 12, 13, 14, 15 :: nat]"
  by code_simp

theorem mean_not_over_unmasked_cells:
  "let s = setSources [hard_ex_source] (EMSolver2D demo_config);
       s' = advance (dt s) s
   in filter (\<lambda>i. \<not> mask_at (pmlMask s) i) [0..<length (instantaneous s)] = [5, 6, 9, 10] \<and>
      meanInstantaneous (stats s') \<noteq>
        (magnitude_at s' 5 + magnitude_at s' 6 + magnitude_at s' 9 + magnitude_at s' 10) / 4"
proof -
  let ?s = "setSources [hard_ex_source] (EMSolver2D demo_config)"
  let ?s' = "advance (dt ?s) ?s"
  let ?src = "\<lparr> index = 5, amplitude = 1, phase = pi / 2, frequency = 1.5, waveform = CW,
                  pulseWidth = 0.4, pulseDelay = 0, injection = Hard, excite = ExciteEx,
                  polarizationAngle = 0 \<rparr>"
  have src: "sources ?s = [?src]"
    by (simp add: setSources_def hard_ex_source_def demo_source_def EMSolver2D_def demo_dims
          demo_index)
  have st: "nx ?s = 4" "ny ?s = 4" "time ?s = 0" "metalMask ?s = None"
    "length (ex ?s) = 16" "length (ey ?s) = 16" "length (hz ?s) = 16"
    "length (instantaneous ?s) = 16" "pmlMask ?s = pmlMask (EMSolver2D demo_config)"
    by (simp_all add: setSources_def EMSolver2D_def demo_dims)
  have cells: "filter (\<lambda>i. \<not> mask_at (pmlMask ?s) i) [0..<length (instantaneous ?s)] = [5, 6, 9, 10]"
    by (simp add: st demo_pmlMask upt_16 mask_at_def)
  have int: "interior (nx ?s) (ny ?s) 5" by (simp add: st interior_def)
  have nm: "\<not> mask_at (metalMask ?s) 5" by (simp add: st mask_at_def)
  have np: "\<not> mask_at (pmlMask ?s) 5" by (simp add: st demo_pmlMask mask_at_def)
  have "ex ?s' ! 5 = amplitude ?src * evalSourceSignal ?src (time ?s)"
    by (rule single_source_step(2) [OF src _ int _ _ _ nm np]) (simp_all add: st)
  then have ex5: "ex ?s' ! 5 = 1" by (simp add: evalSourceSignal_def st)
  have "1 \<le> sqrt (1 + ey ?s' ! 5 * ey ?s' ! 5)" by simp
  then have m5: "1 \<le> magnitude_at ?s' 5" by (simp add: magnitude_at_def ex5)
  have nonneg: "0 \<le> magnitude_at ?s' i" for i by (simp add: magnitude_at_def)
  define S where "S = magnitude_at ?s' 5 + magnitude_at ?s' 6 + magnitude_at ?s' 9 + magnitude_at ?s' 10"
  have S: "1 \<le> S"
    using m5 nonneg [of 6] nonneg [of 9] nonneg [of 10] by (simp add: S_def)
  have "meanInstantaneous (stats ?s') = S / 16"
    unfolding advance_mean
    by (simp add: st demo_pmlMask upt_16 mask_at_def S_def)
  moreover have "S / 16 \<noteq> S / 4" using S by simp
  ultimately have "meanInstantaneous (stats ?s') \<noteq> S / 4" by simp
  with cells show ?thesis unfolding Let_def S_def by blast
qed

section \<open>The material map\<close>

text \<open>
  The membership test of a shape at the grid cell \<open>(x, y)\<close>, with the guards that make the
  builder skip a shape: a circle of radius zero or less, a rectangle of width or height
  zero or less or without a size, any other kind.
\<close>

definition covers :: "domain \<Rightarrow> nat \<Rightarrow> nat \<Rightarrow> shape_object \<Rightarrow> nat \<Rightarrow> nat \<Rightarrow> bool" where
  "covers dmn nx0 ny0 shape x y =
     (let org = origin dmn;
          dx0 = fst (worldSize dmn) / real_of_int (max 1 (int nx0 - 1));
          dy0 = snd (worldSize dmn) / real_of_int (max 1 (int ny0 - 1))
      in if kind shape = ''circle'' then
           (let r = max 0 (case radius shape of None \<Rightarrow> 0 | Some v \<Rightarrow> v)
            in 0 < r \<and> circle_member org dx0 dy0 (center shape) r (int x) (int y))
         else if kind shape = ''rectangle'' then
           (case shape_size shape of
              None \<Rightarrow> False
            | Some (width, height) \<Rightarrow>
                0 < width * 0.5 \<and> 0 < height * 0.5 \<and>
                rect_member org dx0 dy0 (center shape) (width * 0.5) (height * 0.5)
                  (((case angles_z shape of None \<Rightarrow> 0 | Some v \<Rightarrow> v) * pi) / 180)
                  (int x) (int y))
         else False)"

definition skipped :: "shape_object \<Rightarrow> bool" where
  "skipped shape =
     (if kind shape = ''circle'' then (case radius shape of None \<Rightarrow> True | Some v \<Rightarrow> v \<le> 0)
      else if kind shape = ''rectangle'' then
        (case shape_size shape of None \<Rightarrow> True | Some (width, height) \<Rightarrow> width \<le> 0 \<or> height \<le> 0)
      else True)"

lemma skipped_not_covers: "skipped shape \<Longrightarrow> \<not> covers dmn nx0 ny0 shape x y"
  by (auto simp add: skipped_def covers_def Let_def split: option.splits if_splits)

lemma cell_index_inj:
  assumes "0 \<le> a" and "a < int nx0" and "0 \<le> b" and "x < nx0"
    and "nat (b * int nx0 + a) = y * nx0 + x"
  shows "a = int x \<and> b = int y"
proof -
  from assms(1,3) have "0 \<le> b * int nx0 + a" by simp
  with assms(5) have eq: "b * int nx0 + a = int y * int nx0 + int x"
    by (metis int_nat_eq of_nat_add of_nat_mult)
  have "(b * int nx0 + a) mod int nx0 = a" using assms(1,2) by simp
  moreover have "(int y * int nx0 + int x) mod int nx0 = int x" using assms(4) by simp
  ultimately have a: "a = int x" using eq by simp
  with eq have "b * int nx0 = int y * int nx0" by simp
  moreover have "int nx0 \<noteq> 0" using assms(1,2) by auto
  ultimately have "b = int y" by simp
  with a show ?thesis by simp
qed

lemma in_grid_cells:
  "(p, q) \<in> set (concat (map (\<lambda>y. map (\<lambda>x. (x, y)) [a..b]) [c..d])) \<longleftrightarrow>
     a \<le> p \<and> p \<le> b \<and> c \<le> q \<and> q \<le> (d :: int)"
  by (auto simp add: image_iff)

lemma bbox_cells_range:
  assumes "1 \<le> nx0" and "1 \<le> ny0" and "(a, b) \<in> set (bbox_cells org dx0 dy0 nx0 ny0 c r)"
  shows "0 \<le> a \<and> a < int nx0 \<and> 0 \<le> b \<and> b < int ny0"
  using assms by (auto simp add: bbox_cells_def Let_def clamp_def)

lemma bbox_cells_member:
  assumes "0 < dx0" and "0 < dy0" and "x < nx0" and "y < ny0"
    and "\<bar>fst org + real x * dx0 - fst c\<bar> \<le> r"
    and "\<bar>snd org + real y * dy0 - snd c\<bar> \<le> r"
  shows "(int x, int y) \<in> set (bbox_cells org dx0 dy0 nx0 ny0 c r)"
proof -
  have lo: "\<lfloor>(v - r - o') / d\<rfloor> \<le> int k" and hi: "int k \<le> \<lceil>(v + r - o') / d\<rceil>"
    if "0 < d" "\<bar>o' + real k * d - v\<bar> \<le> r" for v o' d :: real and k :: nat
  proof -
    from that have "(v - r - o') / d \<le> real k"
      by (simp add: pos_divide_le_eq abs_le_iff)
    then have "\<lfloor>(v - r - o') / d\<rfloor> \<le> \<lfloor>real k\<rfloor>" by (rule floor_mono)
    then show "\<lfloor>(v - r - o') / d\<rfloor> \<le> int k" by simp
    from that have "real k \<le> (v + r - o') / d"
      by (simp add: pos_le_divide_eq abs_le_iff)
    then have "\<lceil>real k\<rceil> \<le> \<lceil>(v + r - o') / d\<rceil>" by (rule ceiling_mono)
    then show "int k \<le> \<lceil>(v + r - o') / d\<rceil>" by simp
  qed
  note xs = lo [OF assms(1,5)] hi [OF assms(1,5)]
  note ys = lo [OF assms(2,6)] hi [OF assms(2,6)]
  from xs ys assms(3,4) show ?thesis
    unfolding bbox_cells_def Let_def in_grid_cells clamp_def
    by (simp add: le_max_iff_disj)
qed

lemma circle_member_bounds:
  assumes "0 \<le> r" and "circle_member org dx0 dy0 c r (int x) (int y)"
  shows "\<bar>fst org + real x * dx0 - fst c\<bar> \<le> r \<and> \<bar>snd org + real y * dy0 - snd c\<bar> \<le> r"
proof -
  define u where "u = fst org + real x * dx0 - fst c"
  define v where "v = snd org + real y * dy0 - snd c"
  from assms(2) have le: "u * u + v * v \<le> r * r"
    by (simp add: circle_member_def Let_def u_def v_def)
  have "u\<^sup>2 \<le> r\<^sup>2" using le by (simp add: power2_eq_square) (smt (verit) zero_le_square)
  moreover have "v\<^sup>2 \<le> r\<^sup>2" using le by (simp add: power2_eq_square) (smt (verit) zero_le_square)
  ultimately have "\<bar>u\<bar> \<le> r" "\<bar>v\<bar> \<le> r"
    using assms(1) by (simp_all add: abs_le_square_iff [symmetric])
  then show ?thesis by (simp add: u_def v_def)
qed

lemma rect_member_bounds:
  assumes "rect_member org dx0 dy0 c halfW halfH angle (int x) (int y)"
  shows "\<bar>fst org + real x * dx0 - fst c\<bar> \<le> sqrt (halfW * halfW + halfH * halfH) \<and>
         \<bar>snd org + real y * dy0 - snd c\<bar> \<le> sqrt (halfW * halfW + halfH * halfH)"
proof -
  define u where "u = fst org + real x * dx0 - fst c"
  define v where "v = snd org + real y * dy0 - snd c"
  define p where "p = cos angle * u + sin angle * v"
  define q where "q = - sin angle * u + cos angle * v"
  from assms have pq: "\<bar>p\<bar> \<le> halfW" "\<bar>q\<bar> \<le> halfH"
    by (simp_all add: rect_member_def Let_def u_def v_def p_def q_def)
  then have "p\<^sup>2 \<le> halfW\<^sup>2" "q\<^sup>2 \<le> halfH\<^sup>2"
    by (simp_all add: abs_le_square_iff [symmetric])
  then have sum: "p\<^sup>2 + q\<^sup>2 \<le> halfW * halfW + halfH * halfH"
    by (simp add: power2_eq_square)
  have cs: "cos angle * cos angle + sin angle * sin angle = 1"
    by (rule sin_cos_squared_add3)
  have rot: "(a * u + b * v) * (a * u + b * v) + (- b * u + a * v) * (- b * u + a * v)
      = (u * u + v * v) * (a * a + b * b)" for a b :: real
    by (simp add: algebra_simps)
  have "p * p + q * q = (u * u + v * v) * (cos angle * cos angle + sin angle * sin angle)"
    unfolding p_def q_def by (rule rot)
  then have "p * p + q * q = u * u + v * v" by (simp only: cs mult_1_right)
  then have "p\<^sup>2 + q\<^sup>2 = u\<^sup>2 + v\<^sup>2" by (simp add: power2_eq_square)
  with sum have uv: "u\<^sup>2 + v\<^sup>2 \<le> halfW * halfW + halfH * halfH" by simp
  have "u\<^sup>2 \<le> halfW * halfW + halfH * halfH"
    using uv zero_le_power2 [of v] by linarith
  then have "\<bar>u\<bar> \<le> sqrt (halfW * halfW + halfH * halfH)"
    by (intro real_le_rsqrt) simp
  moreover have "v\<^sup>2 \<le> halfW * halfW + halfH * halfH"
    using uv zero_le_power2 [of u] by linarith
  then have "\<bar>v\<bar> \<le> sqrt (halfW * halfW + halfH * halfH)"
    by (intro real_le_rsqrt) simp
  ultimately show ?thesis by (simp add: u_def v_def)
qed

lemma nth_update_same: "xs ! i = v \<Longrightarrow> xs[j := v] ! i = v"
  by (cases "j = i"; cases "i < length xs") (simp_all add: list_update_beyond)

text \<open>The values of the three grids at one cell.\<close>

definition cell_material :: "material_grids \<Rightarrow> nat \<Rightarrow> real \<times> real \<times> bool" where
  "cell_material g idx = (mg_epsR g ! idx, mg_sigma g ! idx, mask_at (mg_metalMask g) idx)"

lemma paint_cells_hit:
  fixes mem :: "int \<Rightarrow> int \<Rightarrow> bool"
  defines "f \<equiv> \<lambda>nx0 e sg b. (\<lambda>(a, c) gr. if mem a c
              then assign_cell e sg b (nat (c * int nx0 + a)) gr else gr)"
  assumes "(int x, int y) \<in> set cells" and "mem (int x) (int y)"
    and "grids_sized n g" and "y * nx0 + x < n"
  shows "cell_material (fold (f nx0 e sg b) cells g) (y * nx0 + x) =
           (e, sg, mg_metalMask g \<noteq> None \<and> b)"
proof -
  let ?idx = "y * nx0 + x"
  let ?I = "\<lambda>gr. grids_sized n gr \<and> (mg_metalMask gr = None \<longleftrightarrow> mg_metalMask g = None)"
  let ?Q = "\<lambda>gr. cell_material gr ?idx = (e, sg, mg_metalMask g \<noteq> None \<and> b)"
  show ?thesis
  proof (rule fold_establish [where I = ?I and Q = ?Q and x = "(int x, int y)"])
    show "(int x, int y) \<in> set cells" by fact
    show "?I g" using assms(4) by simp
    show "?I (f nx0 e sg b p gr)" if "?I gr" for p gr
      using that
      by (cases p) (auto simp add: f_def assign_cell_def grids_sized_def split: option.splits)
    show "?Q (f nx0 e sg b (int x, int y) gr)" if "?I gr" for gr
    proof -
      have "nat (int y * int nx0 + int x) = ?idx"
        by (metis nat_int of_nat_add of_nat_mult)
      with that assms(3,5) show ?thesis
        by (auto simp add: f_def assign_cell_def cell_material_def grids_sized_def mask_at_def
              split: option.splits)
    qed
    show "?Q (f nx0 e sg b p gr)" if "?I gr" "?Q gr" for p gr
      using that
      by (cases p)
         (auto simp add: f_def assign_cell_def cell_material_def mask_at_def nth_update_same
            split: option.splits)
  qed
qed

lemma paint_cells_miss:
  fixes mem :: "int \<Rightarrow> int \<Rightarrow> bool"
  defines "f \<equiv> \<lambda>nx0 e sg b. (\<lambda>(a, c) gr. if mem a c
              then assign_cell e sg b (nat (c * int nx0 + a)) gr else gr)"
  assumes "\<not> mem (int x) (int y)"
    and "\<And>a c. (a, c) \<in> set cells \<Longrightarrow> 0 \<le> a \<and> a < int nx0 \<and> 0 \<le> c"
    and "x < nx0"
  shows "cell_material (fold (f nx0 e sg b) cells g) (y * nx0 + x) = cell_material g (y * nx0 + x)"
proof -
  let ?idx = "y * nx0 + x"
  let ?P = "\<lambda>gr. cell_material gr ?idx = cell_material g ?idx"
  show ?thesis
  proof (rule fold_pres_set [where P = ?P])
    show "?P g" by simp
    fix p gr
    assume p: "p \<in> set cells" and gr: "?P gr"
    obtain a c where ac: "p = (a, c)" by (cases p)
    show "?P (f nx0 e sg b p gr)"
    proof (cases "mem a c")
      case False
      with gr ac show ?thesis by (simp add: f_def)
    next
      case True
      from assms(3) [of a c] p ac have r: "0 \<le> a" "a < int nx0" "0 \<le> c" by simp_all
      have "nat (c * int nx0 + a) \<noteq> ?idx"
      proof
        assume "nat (c * int nx0 + a) = ?idx"
        from cell_index_inj [OF r assms(4) this] True assms(2) show False by simp
      qed
      with gr ac True show ?thesis
        by (auto simp add: f_def assign_cell_def cell_material_def mask_at_def split: option.splits)
    qed
  qed
qed

lemma paint_shape_cell:
  assumes "0 < fst (worldSize dmn)" and "0 < snd (worldSize dmn)"
    and "2 \<le> nx0" and "2 \<le> ny0" and "x < nx0" and "y < ny0"
    and "grids_sized (nx0 * ny0) g"
  shows "cell_material (paint_shape dmn nx0 ny0 shape g) (y * nx0 + x) =
           (if covers dmn nx0 ny0 shape x y
            then (epsVal_of shape, sigVal_of shape, isMetal_of shape)
            else cell_material g (y * nx0 + x))"
proof -
  let ?idx = "y * nx0 + x"
  define dx0 where "dx0 = fst (worldSize dmn) / real_of_int (max 1 (int nx0 - 1))"
  define dy0 where "dy0 = snd (worldSize dmn) / real_of_int (max 1 (int ny0 - 1))"
  define g1 where "g1 = (if isMetal_of shape \<and> mg_metalMask g = None
            then g\<lparr>mg_metalMask := Some (replicate (nx0 * ny0) False)\<rparr> else g)"
  have pos: "0 < dx0" "0 < dy0"
    using assms(1-4) by (simp_all add: dx0_def dy0_def)
  have idx: "?idx < nx0 * ny0" by (rule cell_index_bound [OF assms(5,6)])
  have g1: "grids_sized (nx0 * ny0) g1"
    using assms(7) by (simp add: grids_sized_def g1_def)
  have g1_cell: "cell_material g1 ?idx = cell_material g ?idx"
    using idx by (simp add: g1_def cell_material_def mask_at_def)
  have g1_mask: "isMetal_of shape \<Longrightarrow> mg_metalMask g1 \<noteq> None"
    by (auto simp add: g1_def)
  have range: "0 \<le> a \<and> a < int nx0 \<and> 0 \<le> c"
    if "(a, c) \<in> set (bbox_cells (origin dmn) dx0 dy0 nx0 ny0 ctr r)" for a c ctr r
    using bbox_cells_range [OF _ _ that] assms(3,4) by simp
  have loop: "cell_material
        (fold (\<lambda>(a, c) gr. if mem a c
                 then assign_cell (epsVal_of shape) (sigVal_of shape) (isMetal_of shape)
                        (nat (c * int nx0 + a)) gr else gr)
           (bbox_cells (origin dmn) dx0 dy0 nx0 ny0 ctr r) g1) ?idx =
        (if mem (int x) (int y)
         then (epsVal_of shape, sigVal_of shape, isMetal_of shape)
         else cell_material g ?idx)"
    if inside: "mem (int x) (int y) \<Longrightarrow>
        \<bar>fst (origin dmn) + real x * dx0 - fst ctr\<bar> \<le> r \<and>
        \<bar>snd (origin dmn) + real y * dy0 - snd ctr\<bar> \<le> r"
    for mem :: "int \<Rightarrow> int \<Rightarrow> bool" and ctr r
  proof (cases "mem (int x) (int y)")
    case True
    from inside [OF True] have "(int x, int y) \<in> set (bbox_cells (origin dmn) dx0 dy0 nx0 ny0 ctr r)"
      by (intro bbox_cells_member pos assms(5,6)) simp_all
    from paint_cells_hit [of x y _ mem, OF this True g1 idx] True g1_mask show ?thesis
      by auto
  next
    case False
    from paint_cells_miss [of mem x y _ nx0, OF False range assms(5)] False g1_cell
    show ?thesis by simp
  qed
  show ?thesis
  proof (cases "kind shape = ''circle''")
    case circle: True
    define r where "r = max 0 (case radius shape of None \<Rightarrow> 0 | Some v \<Rightarrow> v)"
    show ?thesis
    proof (cases "r \<le> 0")
      case True
      with circle have "paint_shape dmn nx0 ny0 shape g = g1"
        by (simp add: paint_shape_def Let_def g1_def r_def)
      moreover from True circle have "\<not> covers dmn nx0 ny0 shape x y"
        by (simp add: covers_def Let_def r_def)
      ultimately show ?thesis by (simp add: g1_cell)
    next
      case False
      with circle have "paint_shape dmn nx0 ny0 shape g =
          fold (\<lambda>(a, c) gr. if circle_member (origin dmn) dx0 dy0 (center shape) r a c
                 then assign_cell (epsVal_of shape) (sigVal_of shape) (isMetal_of shape)
                        (nat (c * int nx0 + a)) gr else gr)
           (bbox_cells (origin dmn) dx0 dy0 nx0 ny0 (center shape) r) g1"
        by (simp add: paint_shape_def Let_def g1_def r_def dx0_def dy0_def)
      moreover from False circle have "covers dmn nx0 ny0 shape x y =
          circle_member (origin dmn) dx0 dy0 (center shape) r (int x) (int y)"
        by (simp add: covers_def Let_def r_def dx0_def dy0_def)
      moreover have "0 \<le> r" by (simp add: r_def)
      ultimately show ?thesis
        using loop [of "circle_member (origin dmn) dx0 dy0 (center shape) r" "center shape" r]
        by (simp add: circle_member_bounds)
    qed
  next
    case not_circle: False
    show ?thesis
    proof (cases "kind shape = ''rectangle''")
      case rect: True
      show ?thesis
      proof (cases "shape_size shape")
        case None
        with not_circle rect have "paint_shape dmn nx0 ny0 shape g = g1"
          by (simp add: paint_shape_def Let_def g1_def)
        moreover from None not_circle rect have "\<not> covers dmn nx0 ny0 shape x y"
          by (simp add: covers_def Let_def)
        ultimately show ?thesis by (simp add: g1_cell)
      next
        case (Some wh)
        obtain width height where wh: "wh = (width, height)" by (cases wh)
        define halfW where "halfW = width * 0.5"
        define halfH where "halfH = height * 0.5"
        define angle where "angle = ((case angles_z shape of None \<Rightarrow> 0 | Some v \<Rightarrow> v) * pi) / 180"
        show ?thesis
        proof (cases "halfW \<le> 0 \<or> halfH \<le> 0")
          case True
          with not_circle rect Some wh have "paint_shape dmn nx0 ny0 shape g = g1"
            by (simp add: paint_shape_def Let_def g1_def halfW_def halfH_def)
          moreover from True not_circle rect Some wh have "\<not> covers dmn nx0 ny0 shape x y"
            by (auto simp add: covers_def Let_def halfW_def halfH_def)
          ultimately show ?thesis by (simp add: g1_cell)
        next
          case False
          with not_circle rect Some wh have "paint_shape dmn nx0 ny0 shape g =
              fold (\<lambda>(a, c) gr. if rect_member (origin dmn) dx0 dy0 (center shape) halfW halfH angle a c
                     then assign_cell (epsVal_of shape) (sigVal_of shape) (isMetal_of shape)
                            (nat (c * int nx0 + a)) gr else gr)
               (bbox_cells (origin dmn) dx0 dy0 nx0 ny0 (center shape)
                  (sqrt (halfW * halfW + halfH * halfH))) g1"
            by (simp add: paint_shape_def Let_def g1_def halfW_def halfH_def angle_def
                  dx0_def dy0_def)
          moreover from False not_circle rect Some wh have "covers dmn nx0 ny0 shape x y =
              rect_member (origin dmn) dx0 dy0 (center shape) halfW halfH angle (int x) (int y)"
            by (simp add: covers_def Let_def halfW_def halfH_def angle_def dx0_def dy0_def)
          ultimately show ?thesis
            using loop [of "rect_member (origin dmn) dx0 dy0 (center shape) halfW halfH angle"
                "center shape" "sqrt (halfW * halfW + halfH * halfH)"]
            by (simp add: rect_member_bounds)
        qed
      qed
    next
      case False
      with not_circle have "paint_shape dmn nx0 ny0 shape g = g1"
        by (simp add: paint_shape_def Let_def g1_def)
      moreover from False not_circle have "\<not> covers dmn nx0 ny0 shape x y"
        by (simp add: covers_def Let_def)
      ultimately show ?thesis by (simp add: g1_cell)
    qed
  qed
qed

definition shape_values :: "shape_object \<Rightarrow> real \<times> real \<times> bool" where
  "shape_values shape = (epsVal_of shape, sigVal_of shape, isMetal_of shape)"

lemma fold_paint_sized:
  "grids_sized (nx0 * ny0) g \<Longrightarrow> grids_sized (nx0 * ny0) (fold (paint_shape dmn nx0 ny0) shapes g)"
  by (rule fold_pres) (rule paint_shape_sized)

lemma fold_paint_cell:
  assumes "0 < fst (worldSize dmn)" and "0 < snd (worldSize dmn)"
    and "2 \<le> nx0" and "2 \<le> ny0" and "x < nx0" and "y < ny0"
    and "grids_sized (nx0 * ny0) g"
  shows "cell_material (fold (paint_shape dmn nx0 ny0) shapes g) (y * nx0 + x) =
           (if filter (\<lambda>shape. covers dmn nx0 ny0 shape x y) shapes = []
            then cell_material g (y * nx0 + x)
            else shape_values (last (filter (\<lambda>shape. covers dmn nx0 ny0 shape x y) shapes)))"
proof (induction shapes rule: rev_induct)
  case Nil
  then show ?case by simp
next
  case (snoc shape shapes)
  let ?g = "fold (paint_shape dmn nx0 ny0) shapes g"
  have sized: "grids_sized (nx0 * ny0) ?g" by (rule fold_paint_sized [OF assms(7)])
  note cell = paint_shape_cell [OF assms(1-6) sized, of shape]
  show ?case
  proof (cases "covers dmn nx0 ny0 shape x y")
    case True
    with cell show ?thesis
      by (simp add: shape_values_def)
  next
    case False
    with cell snoc.IH show ?thesis by simp
  qed
qed

lemma buildMaterialGrids_cell:
  assumes "0 < fst (worldSize dmn)" and "0 < snd (worldSize dmn)"
    and "2 \<le> nx0" and "2 \<le> ny0" and "x < nx0" and "y < ny0"
    and "buildMaterialGrids dmn nx0 ny0 shapes = Some g"
  shows "cell_material g (y * nx0 + x) =
           (if filter (\<lambda>shape. covers dmn nx0 ny0 shape x y) shapes = []
            then (1, 0, False)
            else shape_values (last (filter (\<lambda>shape. covers dmn nx0 ny0 shape x y) shapes)))"
proof -
  let ?g0 = "\<lparr> mg_epsR = replicate (nx0 * ny0) 1, mg_sigma = replicate (nx0 * ny0) 0,
               mg_metalMask = None \<rparr>"
  have sized: "grids_sized (nx0 * ny0) ?g0" by (simp add: grids_sized_def)
  have "cell_material ?g0 (y * nx0 + x) = (1, 0, False)"
    using cell_index_bound [OF assms(5,6)] by (simp add: cell_material_def mask_at_def)
  moreover from assms(7) have "g = fold (paint_shape dmn nx0 ny0) shapes ?g0"
    by (simp add: buildMaterialGrids_def split: if_splits)
  ultimately show ?thesis
    using fold_paint_cell [OF assms(1-6) sized, of shapes] by simp
qed

text \<open>The material of one cell of the solver, after the map has been set from a shape list.\<close>

lemma setBarrier_cell:
  assumes "solver_inv config s"
    and "0 < fst (worldSize (cfg_domain config))" and "0 < snd (worldSize (cfg_domain config))"
    and "x < nx s" and "y < ny s"
  shows "(epsRGrid (setBarrierFromShapes shapes s) ! (y * nx s + x),
          sigmaGrid (setBarrierFromShapes shapes s) ! (y * nx s + x),
          mask_at (metalMask (setBarrierFromShapes shapes s)) (y * nx s + x)) =
           (if filter (\<lambda>shape. covers (solver_domain s) (nx s) (ny s) shape x y) shapes = []
            then (1, 0, False)
            else shape_values
                   (last (filter (\<lambda>shape. covers (solver_domain s) (nx s) (ny s) shape x y) shapes)))"
proof -
  from assms(1) have dmn: "solver_domain s = cfg_domain config"
    by (simp add: solver_inv_def same_setup_acc_def same_setup_def EMSolver2D_def)
  note f = solver_inv_fields [OF assms(1)]
  have n: "2 \<le> nx s" "2 \<le> ny s" using f(3,4) nx_of_ge2 ny_of_ge2 by simp_all
  have idx: "y * nx s + x < nx s * ny s" by (rule cell_index_bound [OF assms(4,5)])
  show ?thesis
  proof (cases "buildMaterialGrids (solver_domain s) (nx s) (ny s) shapes")
    case None
    then have "shapes = []" by (simp add: buildMaterialGrids_def split: if_splits)
    with None idx f(11,12) show ?thesis
      by (simp add: setBarrierFromShapes_def mask_at_def)
  next
    case (Some g)
    from buildMaterialGrids_cell [OF _ _ n assms(4,5) Some] assms(2,3) Some show ?thesis
      by (simp add: setBarrierFromShapes_def cell_material_def dmn)
  qed
qed

lemma setBarrier_empty:
  "setBarrierFromShapes [] s =
     s\<lparr>epsRGrid := replicate (length (epsRGrid s)) 1,
       sigmaGrid := replicate (length (sigmaGrid s)) 0, metalMask := None\<rparr>"
  by (simp add: setBarrierFromShapes_def buildMaterialGrids_def)

text \<open>
  C8. For a solver on a domain of positive extent, in any state it can reach, and any cell
  \<open>(x, y)\<close> of its grid: after \<^verbatim>\<open>setBarrierFromShapes\<close> the permittivity, the
  conductivity and the metal bit of the cell are those of the last shape of the list whose
  membership test holds at the cell (clamped as the builder clamps them, metal exactly when
  that shape's preset is metal), and \<open>1\<close>, \<open>0\<close>, not metal when no shape of the list covers
  the cell. A shape with radius, width or height zero or less covers no cell. With the
  empty list no map is built: the grids are filled with \<open>1\<close> and \<open>0\<close> and the metal mask
  is absent.
\<close>

theorem material_map_last_wins:
  assumes "reachable config s"
    and "0 < fst (worldSize (cfg_domain config))" and "0 < snd (worldSize (cfg_domain config))"
    and "x < nx s" and "y < ny s"
  shows "let s' = setBarrierFromShapes shapes s;
             idx = y * nx s + x;
             cov = filter (\<lambda>shape. covers (solver_domain s) (nx s) (ny s) shape x y) shapes
         in (epsRGrid s' ! idx, sigmaGrid s' ! idx, mask_at (metalMask s') idx) =
              (if cov = [] then (1, 0, False)
               else (epsVal_of (last cov), sigVal_of (last cov), isMetal_of (last cov))) \<and>
            (\<forall>shape \<in> set shapes. skipped shape \<longrightarrow> shape \<notin> set cov) \<and>
            (shapes = [] \<longrightarrow>
               buildMaterialGrids (solver_domain s) (nx s) (ny s) shapes = None \<and>
               epsRGrid s' = replicate (nx s * ny s) 1 \<and>
               sigmaGrid s' = replicate (nx s * ny s) 0 \<and> metalMask s' = None)"
proof -
  from reachable_inv [OF assms(1)] have inv: "solver_inv config s" .
  note f = solver_inv_fields [OF inv]
  have cell: "(epsRGrid (setBarrierFromShapes shapes s) ! (y * nx s + x),
          sigmaGrid (setBarrierFromShapes shapes s) ! (y * nx s + x),
          mask_at (metalMask (setBarrierFromShapes shapes s)) (y * nx s + x)) =
      (if filter (\<lambda>shape. covers (solver_domain s) (nx s) (ny s) shape x y) shapes = []
       then (1, 0, False)
       else (epsVal_of (last (filter (\<lambda>shape. covers (solver_domain s) (nx s) (ny s) shape x y) shapes)),
             sigVal_of (last (filter (\<lambda>shape. covers (solver_domain s) (nx s) (ny s) shape x y) shapes)),
             isMetal_of (last (filter (\<lambda>shape. covers (solver_domain s) (nx s) (ny s) shape x y) shapes))))"
    unfolding setBarrier_cell [OF inv assms(2-5)]
    by (simp add: shape_values_def)
  have skip: "\<forall>shape \<in> set shapes. skipped shape \<longrightarrow>
      shape \<notin> set (filter (\<lambda>shape. covers (solver_domain s) (nx s) (ny s) shape x y) shapes)"
    by (simp add: skipped_not_covers)
  have empty: "shapes = [] \<longrightarrow>
      buildMaterialGrids (solver_domain s) (nx s) (ny s) shapes = None \<and>
      epsRGrid (setBarrierFromShapes shapes s) = replicate (nx s * ny s) 1 \<and>
      sigmaGrid (setBarrierFromShapes shapes s) = replicate (nx s * ny s) 0 \<and>
      metalMask (setBarrierFromShapes shapes s) = None"
    using f(11,12) by (auto simp add: setBarrier_empty buildMaterialGrids_def)
  show ?thesis unfolding Let_def using cell skip empty by blast
qed

text \<open>
  On the demo grid: a metal disc, then a disc of the default material on the same cell,
  then a disc of radius zero. Cell \<open>(1, 1)\<close> takes the second disc's material and is not
  metal; cell \<open>(2, 2)\<close> is covered by none and stays free space.
\<close>

definition wall_disc :: shape_object where
  "wall_disc = metal_disc\<lparr>shape_material := None\<rparr>"

definition flat_disc :: shape_object where
  "flat_disc = metal_disc\<lparr>radius := Some 0\<rparr>"

lemma demo_covers:
  "covers (cfg_domain demo_config) 4 4 metal_disc (Suc 0) (Suc 0)"
  "covers (cfg_domain demo_config) 4 4 wall_disc (Suc 0) (Suc 0)"
  "\<not> covers (cfg_domain demo_config) 4 4 flat_disc (Suc 0) (Suc 0)"
  "\<not> covers (cfg_domain demo_config) 4 4 metal_disc 2 2"
  "\<not> covers (cfg_domain demo_config) 4 4 wall_disc 2 2"
  "\<not> covers (cfg_domain demo_config) 4 4 flat_disc 2 2"
  by (simp_all add: covers_def wall_disc_def flat_disc_def metal_disc_def demo_config_def
        circle_member_def)

lemma demo_values:
  "epsVal_of wall_disc = 2.7" "sigVal_of wall_disc = 0.02" "\<not> isMetal_of wall_disc"
  "isMetal_of metal_disc"
  by (simp_all add: epsVal_of_def sigVal_of_def isMetal_of_def material_of_def wall_disc_def
        metal_disc_def clamp_def)

theorem material_map_last_wins_witness:
  "let s' = setBarrierFromShapes [metal_disc, wall_disc, flat_disc] (EMSolver2D demo_config)
   in epsRGrid s' ! 5 = 2.7 \<and> sigmaGrid s' ! 5 = 0.02 \<and> \<not> mask_at (metalMask s') 5 \<and>
      epsRGrid s' ! 10 = 1 \<and> sigmaGrid s' ! 10 = 0 \<and> \<not> mask_at (metalMask s') 10"
proof -
  let ?s = "EMSolver2D demo_config"
  let ?shapes = "[metal_disc, wall_disc, flat_disc]"
  have st: "nx ?s = 4" "ny ?s = 4" "solver_domain ?s = cfg_domain demo_config"
    by (simp_all add: EMSolver2D_def demo_dims)
  have w: "0 < fst (worldSize (cfg_domain demo_config))" "0 < snd (worldSize (cfg_domain demo_config))"
    by (simp_all add: demo_config_def)
  have one: "(1::nat) < nx ?s" "(1::nat) < ny ?s" and two: "(2::nat) < nx ?s" "(2::nat) < ny ?s"
    by (simp_all add: st)
  from material_map_last_wins [OF reachable.constructed w one, of ?shapes, unfolded Let_def st]
  have "(epsRGrid (setBarrierFromShapes ?shapes ?s) ! (1 * 4 + 1),
         sigmaGrid (setBarrierFromShapes ?shapes ?s) ! (1 * 4 + 1),
         mask_at (metalMask (setBarrierFromShapes ?shapes ?s)) (1 * 4 + 1)) =
        (epsVal_of wall_disc, sigVal_of wall_disc, isMetal_of wall_disc)"
    by (simp add: demo_covers)
  then have a: "epsRGrid (setBarrierFromShapes ?shapes ?s) ! 5 = 2.7"
    "sigmaGrid (setBarrierFromShapes ?shapes ?s) ! 5 = 0.02"
    "\<not> mask_at (metalMask (setBarrierFromShapes ?shapes ?s)) 5"
    by (simp_all add: demo_values)
  from material_map_last_wins [OF reachable.constructed w two, of ?shapes, unfolded Let_def st]
  have "(epsRGrid (setBarrierFromShapes ?shapes ?s) ! (2 * 4 + 2),
         sigmaGrid (setBarrierFromShapes ?shapes ?s) ! (2 * 4 + 2),
         mask_at (metalMask (setBarrierFromShapes ?shapes ?s)) (2 * 4 + 2)) = (1, 0, False)"
    by (simp add: demo_covers)
  then have b: "epsRGrid (setBarrierFromShapes ?shapes ?s) ! 10 = 1"
    "sigmaGrid (setBarrierFromShapes ?shapes ?s) ! 10 = 0"
    "\<not> mask_at (metalMask (setBarrierFromShapes ?shapes ?s)) 10"
    by simp_all
  from a b show ?thesis unfolding Let_def by blast
qed

text \<open>
  C6, at a failing input. On the demo grid the metal disc marks cell 5 and the default
  source sits on the same cell. After the first step \<open>Ex\<close> and \<open>Ey\<close> are zero there, but
  \<open>Hz\<close> is 1: the first injection block adds the source's sine after the metal cells were
  zeroed, and nothing zeroes the cell again before the step ends.
\<close>

theorem metal_cell_hz_not_zero:
  "let s = setBarrierFromShapes [metal_disc] (setSources [demo_source] (EMSolver2D demo_config));
       s' = advance (dt s) s
   in mask_at (metalMask s) 5 \<and> map index (sources s) = [5] \<and>
      ex s' ! 5 = 0 \<and> ey s' ! 5 = 0 \<and> hz s' ! 5 = 1"
proof -
  let ?s1 = "setSources [demo_source] (EMSolver2D demo_config)"
  let ?s = "setBarrierFromShapes [metal_disc] ?s1"
  have r1: "reachable demo_config ?s1"
    by (rule reachable.after_setSources [OF reachable.constructed])
  have inv1: "solver_inv demo_config ?s1" by (rule reachable_inv [OF r1])
  have inv: "solver_inv demo_config ?s"
    by (rule reachable_inv [OF reachable.after_setBarrier [OF r1]])
  have st1: "nx ?s1 = 4" "ny ?s1 = 4" "solver_domain ?s1 = cfg_domain demo_config"
    by (simp_all add: demo_state) (simp add: setSources_def EMSolver2D_def)
  have w: "0 < fst (worldSize (cfg_domain demo_config))" "0 < snd (worldSize (cfg_domain demo_config))"
    by (simp_all add: demo_config_def)
  have one: "(1::nat) < nx ?s1" "(1::nat) < ny ?s1" by (simp_all add: st1)
  from setBarrier_cell [OF inv1 w one, of "[metal_disc]", unfolded st1]
  have metal: "mask_at (metalMask ?s) 5"
    by (simp add: demo_covers shape_values_def demo_values)
  have st: "nx ?s = 4" "ny ?s = 4" "time ?s = 0" "sources ?s = sources ?s1"
    using solver_inv_fields(3,4) [OF inv]
    by (simp_all add: demo_dims)
       (simp_all add: setBarrierFromShapes_def demo_state split: option.splits)
  have len: "5 < length (ex ?s)" "5 < length (ey ?s)" "5 < length (hz ?s)"
    using solver_inv_fields(5-7) [OF inv] by (simp_all add: st)
  have int: "interior (nx ?s) (ny ?s) 5" by (simp add: st interior_def)
  have src: "map index (sources ?s) = [5]" by (simp add: st demo_sources)
  have "sum_list (map (hz_signal (time ?s)) (filter (\<lambda>source. index source = 5) (sources ?s))) = 1"
    by (simp add: st demo_sources hz_signal_def)
  with metal_cell_step [OF metal len, of "dt ?s"] int
  have "ex (advance (dt ?s) ?s) ! 5 = 0" "ey (advance (dt ?s) ?s) ! 5 = 0"
    "hz (advance (dt ?s) ?s) ! 5 = 1"
    by simp_all
  with metal src show ?thesis unfolding Let_def by blast
qed

section \<open>The scalar variant\<close>

text \<open>
  \<^verbatim>\<open>WaveSolver2D\<close> keeps one scalar field in three buffers (previous, current, next)
  and shares the time step, the boundary profile, the step driver and the reset contract
  with the electromagnetic solver. Its fields carry the prefix \<open>w_\<close>.
\<close>

record wave_solver =
  w_nx :: nat
  w_ny :: nat
  w_dx :: real
  w_dy :: real
  w_dt :: real
  w_time :: real
  w_avgTau :: real
  w_domain :: domain
  w_loss :: real
  w_prev :: "real list"
  w_curr :: "real list"
  w_next :: "real list"
  w_instantaneous :: "real list"
  w_avgPower :: "real list"
  w_avgMagnitude :: "real list"
  w_sources :: "wave_source list"
  w_barrierMask :: "bool list option"
  w_accumulator :: real
  w_maxSubstepsPerFrame :: nat
  w_stats :: solver_stats
  w_pmlWidth :: real
  w_pmlSigma :: "real list option"
  w_pmlMask :: "bool list option"
  w_coeffX :: real
  w_coeffY :: real

definition w_waveSpeed_of :: "solver_settings \<Rightarrow> real" where
  "w_waveSpeed_of solver =
     (let rawSpeed = (case speed solver of Num v \<Rightarrow> v | _ \<Rightarrow> 1)
      in clamp rawSpeed 0.05 20)"

definition w_dt_of :: "solver_config \<Rightarrow> real" where
  "w_dt_of config =
     (let minCell = min (dx_of config) (dy_of config);
          waveSpeed = w_waveSpeed_of (cfg_solver config)
      in (cfl_of config * minCell) / (waveSpeed * sqrt 2))"

definition WaveSolver2D :: "solver_config \<Rightarrow> wave_solver" where
  "WaveSolver2D config =
     \<lparr> w_nx = nx_of config, w_ny = ny_of config,
       w_dx = dx_of config, w_dy = dy_of config, w_dt = w_dt_of config,
       w_time = 0,
       w_avgTau = max 0.05 (case cfg_avgTau config of None \<Rightarrow> 0.35 | Some v \<Rightarrow> v),
       w_domain = cfg_domain config,
       w_loss = clamp (case attenuation (cfg_solver config) of None \<Rightarrow> 0 | Some v \<Rightarrow> v) 0 2,
       w_prev = replicate (nx_of config * ny_of config) 0,
       w_curr = replicate (nx_of config * ny_of config) 0,
       w_next = replicate (nx_of config * ny_of config) 0,
       w_instantaneous = replicate (nx_of config * ny_of config) 0,
       w_avgPower = replicate (nx_of config * ny_of config) 0,
       w_avgMagnitude = replicate (nx_of config * ny_of config) 0,
       w_sources = [],
       w_barrierMask = None,
       w_accumulator = 0, w_maxSubstepsPerFrame = 8,
       w_stats = \<lparr> stats_time = 0, maxInstantaneous = 0, meanInstantaneous = 0 \<rparr>,
       w_pmlWidth = usablePmlWidth_of config,
       w_pmlSigma = buildPmlSigma (nx_of config) (ny_of config) (usablePmlWidth_of config)
                      (dx_of config) (dy_of config) (w_waveSpeed_of (cfg_solver config)),
       w_pmlMask = buildPmlMask (nx_of config) (ny_of config) (usablePmlWidth_of config),
       w_coeffX = w_waveSpeed_of (cfg_solver config) * w_waveSpeed_of (cfg_solver config)
                    * w_dt_of config * w_dt_of config * (1 / (dx_of config * dx_of config)),
       w_coeffY = w_waveSpeed_of (cfg_solver config) * w_waveSpeed_of (cfg_solver config)
                    * w_dt_of config * w_dt_of config * (1 / (dy_of config * dy_of config)) \<rparr>"

definition w_setSources :: "source_object list \<Rightarrow> wave_solver \<Rightarrow> wave_solver" where
  "w_setSources srcs s =
     s\<lparr>w_sources :=
         map (\<lambda>source.
               \<lparr> index = indexFromWorld (so_position source) (w_domain s) (w_nx s) (w_ny s),
                 amplitude = so_amplitude source,
                 phase = so_phase source,
                 frequency = so_frequency source,
                 waveform = (case so_waveform source of None \<Rightarrow> CW | Some v \<Rightarrow> v),
                 pulseWidth = (case so_pulseWidth source of None \<Rightarrow> 0.4 | Some v \<Rightarrow> v),
                 pulseDelay = (case so_pulseDelay source of None \<Rightarrow> 0 | Some v \<Rightarrow> v),
                 injection = (case so_injection source of None \<Rightarrow> Soft | Some v \<Rightarrow> v) \<rparr>)
             (filter so_active srcs)\<rparr>"

text \<open>One iteration of the loop over the shapes in the scalar solver's barrier builder.\<close>

definition w_mark_shape :: "wave_solver \<Rightarrow> shape_object \<Rightarrow> bool list \<Rightarrow> bool list" where
  "w_mark_shape s shape msk =
     (let org = origin (w_domain s);
          dx0 = w_dx s;
          dy0 = w_dy s
      in if kind shape = ''circle'' then
           (let r = max 0 (case radius shape of None \<Rightarrow> 0 | Some v \<Rightarrow> v)
            in if r \<le> 0 then msk
               else fold (\<lambda>(x, y) m.
                      if circle_member org dx0 dy0 (center shape) r x y
                      then m[nat (y * int (w_nx s) + x) := True] else m)
                    (bbox_cells org dx0 dy0 (w_nx s) (w_ny s) (center shape) r) msk)
         else if kind shape = ''rectangle'' then
           (case shape_size shape of
              None \<Rightarrow> msk
            | Some (width, height) \<Rightarrow>
                (let halfW = width * 0.5;
                     halfH = height * 0.5
                 in if halfW \<le> 0 \<or> halfH \<le> 0 then msk
                    else
                      (let angle = ((case angles_z shape of None \<Rightarrow> 0 | Some v \<Rightarrow> v) * pi) / 180;
                           r = sqrt (halfW * halfW + halfH * halfH)
                       in fold (\<lambda>(x, y) m.
                            if rect_member org dx0 dy0 (center shape) halfW halfH angle x y
                            then m[nat (y * int (w_nx s) + x) := True] else m)
                          (bbox_cells org dx0 dy0 (w_nx s) (w_ny s) (center shape) r) msk)))
         else msk)"

definition w_setBarrierFromShapes :: "shape_object list \<Rightarrow> wave_solver \<Rightarrow> wave_solver" where
  "w_setBarrierFromShapes shapes s =
     (if shapes = [] then s\<lparr>w_barrierMask := None\<rparr>
      else s\<lparr>w_barrierMask :=
               Some (fold (w_mark_shape s) shapes (replicate (w_nx s * w_ny s) False))\<rparr>)"

subsection \<open>One fixed step of the scalar solver\<close>

definition w_zero_both :: "nat \<Rightarrow> wave_solver \<Rightarrow> wave_solver" where
  "w_zero_both i s = s\<lparr>w_curr := (w_curr s)[i := 0], w_prev := (w_prev s)[i := 0]\<rparr>"

definition w_zero_edges_both :: "wave_solver \<Rightarrow> wave_solver" where
  "w_zero_edges_both s =
     (if w_nx s > 1 \<and> w_ny s > 1 then
        (let s1 = fold (\<lambda>x st. w_zero_both ((w_ny s - 1) * w_nx s + x) (w_zero_both x st))
                    [0..<w_nx s] s
         in fold (\<lambda>y st. w_zero_both (y * w_nx s + w_nx s - 1) (w_zero_both (y * w_nx s) st))
              [0..<w_ny s] s1)
      else s)"

definition w_zero_barrier_both :: "wave_solver \<Rightarrow> wave_solver" where
  "w_zero_barrier_both s =
     (case w_barrierMask s of
        None \<Rightarrow> s
      | Some barrier \<Rightarrow>
          fold (\<lambda>i st. if barrier ! i then w_zero_both i st else st) [0..<length barrier] s)"

definition w_cell :: "real \<Rightarrow> nat \<Rightarrow> nat \<Rightarrow> wave_solver \<Rightarrow> wave_solver" where
  "w_cell dtv y x s =
     (let rowOffset = y * w_nx s;
          upOffset = (if y = 0 then rowOffset else rowOffset - w_nx s);
          downOffset = (if y = w_ny s - 1 then rowOffset else rowOffset + w_nx s);
          idx = rowOffset + x;
          leftIdx = (if x = 0 then idx else idx - 1);
          rightIdx = (if x = w_nx s - 1 then idx else idx + 1);
          upIdx = upOffset + x;
          downIdx = downOffset + x;
          laplacian =
            (w_curr s ! leftIdx - 2 * w_curr s ! idx + w_curr s ! rightIdx) * w_coeffX s +
            (w_curr s ! upIdx - 2 * w_curr s ! idx + w_curr s ! downIdx) * w_coeffY s;
          sigmaVal = (case w_pmlSigma s of None \<Rightarrow> 0 | Some sg \<Rightarrow> sg ! idx) + w_loss s
      in if sigmaVal > 0 then
           (let sdt = sigmaVal * dtv * 0.5
            in s\<lparr>w_next := (w_next s)[idx :=
                   (2 * w_curr s ! idx - w_prev s ! idx * (1 - sdt) + laplacian) / (1 + sdt)]\<rparr>)
         else s\<lparr>w_next := (w_next s)[idx := 2 * w_curr s ! idx - w_prev s ! idx + laplacian]\<rparr>)"

definition w_update :: "real \<Rightarrow> wave_solver \<Rightarrow> wave_solver" where
  "w_update dtv s = fold (\<lambda>y. fold (w_cell dtv y) [0..<w_nx s]) [0..<w_ny s] s"

definition w_inject_source :: "real \<Rightarrow> wave_source \<Rightarrow> wave_solver \<Rightarrow> wave_solver" where
  "w_inject_source t source s =
     (let signal = amplitude source * evalSourceSignal source t
      in if injection source = Hard
         then s\<lparr>w_next := (w_next s)[index source := signal]\<rparr>
         else s\<lparr>w_next := (w_next s)[index source := w_next s ! index source + signal]\<rparr>)"

definition w_inject_sources :: "wave_solver \<Rightarrow> wave_solver" where
  "w_inject_sources s = fold (w_inject_source (w_time s)) (w_sources s) s"

definition w_zero_next :: "nat \<Rightarrow> wave_solver \<Rightarrow> wave_solver" where
  "w_zero_next i s = s\<lparr>w_next := (w_next s)[i := 0]\<rparr>"

definition w_zero_barrier_next :: "wave_solver \<Rightarrow> wave_solver" where
  "w_zero_barrier_next s =
     (case w_barrierMask s of
        None \<Rightarrow> s
      | Some barrier \<Rightarrow>
          fold (\<lambda>i st. if barrier ! i then w_zero_next i st else st) [0..<length barrier] s)"

definition w_zero_edges_next :: "wave_solver \<Rightarrow> wave_solver" where
  "w_zero_edges_next s =
     (if w_nx s > 1 \<and> w_ny s > 1 then
        (let s1 = fold (\<lambda>x st. w_zero_next ((w_ny s - 1) * w_nx s + x) (w_zero_next x st))
                    [0..<w_nx s] s
         in fold (\<lambda>y st. w_zero_next (y * w_nx s + w_nx s - 1) (w_zero_next (y * w_nx s) st))
              [0..<w_ny s] s1)
      else s)"

text \<open>The three buffers change roles: the handles are swapped, not the contents.\<close>

definition w_rotate :: "wave_solver \<Rightarrow> wave_solver" where
  "w_rotate s = s\<lparr>w_prev := w_curr s, w_curr := w_next s, w_next := w_prev s\<rparr>"

definition w_magnitude_cell ::
  "real \<Rightarrow> nat \<Rightarrow> wave_solver \<times> real \<times> real \<Rightarrow> wave_solver \<times> real \<times> real" where
  "w_magnitude_cell alpha i acc =
     (case acc of (s, mx, sm) \<Rightarrow>
        if mask_at (w_pmlMask s) i
        then (s\<lparr>w_avgPower := (w_avgPower s)[i := 0],
                 w_avgMagnitude := (w_avgMagnitude s)[i := 0],
                 w_instantaneous := (w_instantaneous s)[i := 0]\<rparr>, mx, sm)
        else
          let val = w_curr s ! i;
              absValue = \<bar>val\<bar>;
              power = val * val;
              nextAvg = w_avgPower s ! i + alpha * (power - w_avgPower s ! i)
          in (s\<lparr>w_avgPower := (w_avgPower s)[i := nextAvg],
                 w_avgMagnitude := (w_avgMagnitude s)[i := sqrt nextAvg],
                 w_instantaneous := (w_instantaneous s)[i := absValue]\<rparr>,
              (if absValue > mx then absValue else mx), sm + absValue))"

definition w_compute_stats :: "real \<Rightarrow> wave_solver \<Rightarrow> wave_solver" where
  "w_compute_stats dtv s =
     (let alpha = min 1 (dtv / w_avgTau s)
      in case fold (w_magnitude_cell alpha) [0..<length (w_curr s)] (s, 0, 0) of
           (s', mx, sm) \<Rightarrow>
             s'\<lparr>w_time := w_time s' + dtv,
                w_stats := \<lparr> stats_time = w_time s' + dtv,
                             maxInstantaneous = mx,
                             meanInstantaneous = sm / real (length (w_curr s')) \<rparr>\<rparr>)"

definition w_advance :: "real \<Rightarrow> wave_solver \<Rightarrow> wave_solver" where
  "w_advance dtv s =
     w_compute_stats dtv (w_rotate (w_zero_edges_next (w_zero_barrier_next (w_inject_sources
       (w_update dtv (w_zero_barrier_both (w_zero_edges_both s)))))))"

subsection \<open>What a fixed step of the scalar solver leaves alone\<close>

text \<open>
  The three buffers are rotated, so their lengths are kept when they agree, as they do
  from construction on.
\<close>

definition w_same_setup :: "wave_solver \<Rightarrow> wave_solver \<Rightarrow> bool" where
  "w_same_setup s s' \<longleftrightarrow>
     w_nx s' = w_nx s \<and> w_ny s' = w_ny s \<and> w_domain s' = w_domain s \<and>
     w_dx s' = w_dx s \<and> w_dy s' = w_dy s \<and> w_dt s' = w_dt s \<and> w_avgTau s' = w_avgTau s \<and>
     w_loss s' = w_loss s \<and> w_sources s' = w_sources s \<and>
     w_barrierMask s' = w_barrierMask s \<and>
     w_accumulator s' = w_accumulator s \<and>
     w_maxSubstepsPerFrame s' = w_maxSubstepsPerFrame s \<and>
     w_pmlWidth s' = w_pmlWidth s \<and> w_pmlSigma s' = w_pmlSigma s \<and>
     w_pmlMask s' = w_pmlMask s \<and> w_coeffX s' = w_coeffX s \<and> w_coeffY s' = w_coeffY s \<and>
     length (w_instantaneous s') = length (w_instantaneous s) \<and>
     length (w_avgPower s') = length (w_avgPower s) \<and>
     length (w_avgMagnitude s') = length (w_avgMagnitude s) \<and>
     (length (w_prev s) = length (w_curr s) \<and> length (w_curr s) = length (w_next s) \<longrightarrow>
        length (w_prev s') = length (w_prev s) \<and> length (w_curr s') = length (w_prev s) \<and>
        length (w_next s') = length (w_prev s))"

lemma w_same_setup_refl: "w_same_setup s s"
  by (simp add: w_same_setup_def)

lemma w_same_setup_trans: "w_same_setup s s' \<Longrightarrow> w_same_setup s' s'' \<Longrightarrow> w_same_setup s s''"
  by (simp add: w_same_setup_def)

lemma w_zero_both_setup: "w_same_setup s st \<Longrightarrow> w_same_setup s (w_zero_both i st)"
  by (simp add: w_same_setup_def w_zero_both_def)

lemma w_zero_next_setup: "w_same_setup s st \<Longrightarrow> w_same_setup s (w_zero_next i st)"
  by (simp add: w_same_setup_def w_zero_next_def)

lemma w_zero_edges_both_setup: "w_same_setup s (w_zero_edges_both s)"
  unfolding w_zero_edges_both_def Let_def
  by (simp add: w_same_setup_refl,
      intro impI fold_pres [where P = "w_same_setup s"] w_zero_both_setup w_same_setup_refl)

lemma w_zero_edges_next_setup: "w_same_setup s (w_zero_edges_next s)"
  unfolding w_zero_edges_next_def Let_def
  by (simp add: w_same_setup_refl,
      intro impI fold_pres [where P = "w_same_setup s"] w_zero_next_setup w_same_setup_refl)

lemma w_zero_barrier_both_setup: "w_same_setup s (w_zero_barrier_both s)"
proof (cases "w_barrierMask s")
  case None
  then show ?thesis by (simp add: w_zero_barrier_both_def w_same_setup_refl)
next
  case (Some barrier)
  have "w_same_setup s (fold (\<lambda>i st. if barrier ! i then w_zero_both i st else st)
          [0..<length barrier] s)"
    by (rule fold_pres) (simp_all add: w_zero_both_setup w_same_setup_refl)
  with Some show ?thesis by (simp add: w_zero_barrier_both_def)
qed

lemma w_zero_barrier_next_setup: "w_same_setup s (w_zero_barrier_next s)"
proof (cases "w_barrierMask s")
  case None
  then show ?thesis by (simp add: w_zero_barrier_next_def w_same_setup_refl)
next
  case (Some barrier)
  have "w_same_setup s (fold (\<lambda>i st. if barrier ! i then w_zero_next i st else st)
          [0..<length barrier] s)"
    by (rule fold_pres) (simp_all add: w_zero_next_setup w_same_setup_refl)
  with Some show ?thesis by (simp add: w_zero_barrier_next_def)
qed

lemma w_cell_setup: "w_same_setup s st \<Longrightarrow> w_same_setup s (w_cell dtv y x st)"
  by (simp add: w_same_setup_def w_cell_def Let_def)

lemma w_update_setup: "w_same_setup s (w_update dtv s)"
  unfolding w_update_def
  by (rule fold_pres, rule fold_pres, erule w_cell_setup, assumption, rule w_same_setup_refl)

lemma w_inject_source_setup: "w_same_setup s st \<Longrightarrow> w_same_setup s (w_inject_source t source st)"
  by (simp add: w_same_setup_def w_inject_source_def Let_def)

lemma w_inject_sources_setup: "w_same_setup s (w_inject_sources s)"
  unfolding w_inject_sources_def
  by (rule fold_pres, erule w_inject_source_setup, rule w_same_setup_refl)

lemma w_rotate_setup: "w_same_setup s (w_rotate s)"
  by (simp add: w_same_setup_def w_rotate_def)

lemma w_magnitude_cell_setup:
  "w_same_setup s (fst acc) \<Longrightarrow> w_same_setup s (fst (w_magnitude_cell alpha i acc))"
  by (cases acc) (simp add: w_same_setup_def w_magnitude_cell_def Let_def)

lemma w_compute_stats_setup: "w_same_setup s (w_compute_stats dtv s)"
proof -
  define r where "r = fold (w_magnitude_cell (min 1 (dtv / w_avgTau s))) [0..<length (w_curr s)] (s, 0, 0)"
  have "w_same_setup s (fst r)"
    unfolding r_def by (rule fold_pres, erule w_magnitude_cell_setup) (simp add: w_same_setup_refl)
  then show ?thesis
    by (cases r) (simp add: w_compute_stats_def Let_def r_def [symmetric] w_same_setup_def)
qed

lemma w_advance_setup: "w_same_setup s (w_advance dtv s)"
  unfolding w_advance_def
  by (rule w_same_setup_trans [OF w_zero_edges_both_setup],
      rule w_same_setup_trans [OF w_zero_barrier_both_setup],
      rule w_same_setup_trans [OF w_update_setup],
      rule w_same_setup_trans [OF w_inject_sources_setup],
      rule w_same_setup_trans [OF w_zero_barrier_next_setup],
      rule w_same_setup_trans [OF w_zero_edges_next_setup],
      rule w_same_setup_trans [OF w_rotate_setup],
      rule w_compute_stats_setup)

subsection \<open>Stepping and resetting the scalar solver\<close>

definition w_substep :: "real \<Rightarrow> wave_solver \<Rightarrow> wave_solver" where
  "w_substep dtv s = (let s' = w_advance dtv s in s'\<lparr>w_accumulator := w_accumulator s' - dtv\<rparr>)"

lemma w_substep_maxSubsteps [simp]: "w_maxSubstepsPerFrame (w_substep dtv s) = w_maxSubstepsPerFrame s"
  using w_advance_setup [of s dtv] by (simp add: w_substep_def Let_def w_same_setup_def)

function w_step_loop :: "real \<Rightarrow> wave_solver \<Rightarrow> nat \<Rightarrow> wave_solver \<times> nat" where
  "w_step_loop dtv s substepCount =
     (if w_accumulator s \<ge> dtv \<and> substepCount < w_maxSubstepsPerFrame s
      then w_step_loop dtv (w_substep dtv s) (substepCount + 1)
      else (s, substepCount))"
  by pat_completeness auto
termination
  by (relation "measure (\<lambda>(dtv, s, c). w_maxSubstepsPerFrame s - c)") auto

declare w_step_loop.simps [simp del]

definition w_step_run :: "real \<Rightarrow> wave_solver \<Rightarrow> wave_solver \<times> nat" where
  "w_step_run d s = (let s1 = s\<lparr>w_accumulator := w_accumulator s + d\<rparr> in w_step_loop (w_dt s1) s1 0)"

definition w_clamp_accumulator :: "nat \<Rightarrow> wave_solver \<Rightarrow> wave_solver" where
  "w_clamp_accumulator substepCount s =
     (let dtv = w_dt s
      in if w_accumulator s \<ge> dtv \<and> substepCount \<ge> w_maxSubstepsPerFrame s
         then (let maxAccumulator = dtv * real (w_maxSubstepsPerFrame s)
               in if w_accumulator s > maxAccumulator
                  then s\<lparr>w_accumulator := maxAccumulator\<rparr> else s)
         else s)"

definition w_step :: "jsnum \<Rightarrow> wave_solver \<Rightarrow> wave_solver" where
  "w_step deltaSeconds s =
     (case deltaSeconds of
        Num d \<Rightarrow>
          if d \<le> 0 then s
          else (case w_step_run d s of (s2, substepCount) \<Rightarrow> w_clamp_accumulator substepCount s2)
      | _ \<Rightarrow> s)"

definition w_advances_run :: "jsnum \<Rightarrow> wave_solver \<Rightarrow> nat" where
  "w_advances_run deltaSeconds s =
     (case deltaSeconds of
        Num d \<Rightarrow> if d \<le> 0 then 0 else snd (w_step_run d s)
      | _ \<Rightarrow> 0)"


lemma w_substep_accumulator: "w_accumulator (w_substep dtv s) = w_accumulator s - dtv"
  using w_advance_setup [of s dtv] by (simp add: w_substep_def Let_def w_same_setup_def)

lemma w_substep_dt: "w_dt (w_substep dtv s) = w_dt s"
  using w_advance_setup [of s dtv] by (simp add: w_substep_def Let_def w_same_setup_def)

lemma w_substeps_accumulator:
  "w_accumulator ((w_substep dtv ^^ k) s) = w_accumulator s - real k * dtv"
  by (induction k) (simp_all add: w_substep_accumulator algebra_simps)

lemma w_substeps_dt: "w_dt ((w_substep dtv ^^ k) s) = w_dt s"
  by (induction k) (simp_all add: w_substep_dt)

lemma w_substeps_maxSubsteps:
  "w_maxSubstepsPerFrame ((w_substep dtv ^^ k) s) = w_maxSubstepsPerFrame s"
  by (induction k) simp_all

lemma w_step_loop_unfold:
  "w_step_loop dtv s c = (s', c') \<Longrightarrow> c \<le> w_maxSubstepsPerFrame s \<Longrightarrow>
     c \<le> c' \<and> c' \<le> w_maxSubstepsPerFrame s \<and> s' = (w_substep dtv ^^ (c' - c)) s \<and>
     (\<forall>j < c' - c. dtv \<le> w_accumulator ((w_substep dtv ^^ j) s)) \<and>
     (c' = w_maxSubstepsPerFrame s \<or> w_accumulator s' < dtv)"
proof (induction dtv s c rule: w_step_loop.induct)
  case (1 dtv s c)
  show ?case
  proof (cases "w_accumulator s \<ge> dtv \<and> c < w_maxSubstepsPerFrame s")
    case True
    with "1.prems" have run: "w_step_loop dtv (w_substep dtv s) (c + 1) = (s', c')"
      by (simp add: w_step_loop.simps [of dtv s c])
    from True have le: "c + 1 \<le> w_maxSubstepsPerFrame (w_substep dtv s)" by simp
    note ih = "1.IH" [OF True run le]
    from ih have c': "c + 1 \<le> c'" "c' \<le> w_maxSubstepsPerFrame s" by simp_all
    then have diff: "c' - c = Suc (c' - (c + 1))" by simp
    have s': "s' = (w_substep dtv ^^ (c' - c)) s"
      using ih by (simp add: diff funpow_swap1)
    have guard: "\<forall>j < c' - c. dtv \<le> w_accumulator ((w_substep dtv ^^ j) s)"
    proof (intro allI impI)
      fix j assume j: "j < c' - c"
      show "dtv \<le> w_accumulator ((w_substep dtv ^^ j) s)"
      proof (cases j)
        case 0
        with True show ?thesis by simp
      next
        case (Suc i)
        with j have "i < c' - (c + 1)" by simp
        with ih have "dtv \<le> w_accumulator ((w_substep dtv ^^ i) (w_substep dtv s))" by blast
        with Suc show ?thesis by (simp add: funpow_swap1)
      qed
    qed
    from ih have "c' = w_maxSubstepsPerFrame (w_substep dtv s) \<or> w_accumulator s' < dtv" by blast
    then have "c' = w_maxSubstepsPerFrame s \<or> w_accumulator s' < dtv" by simp
    with c' s' guard show ?thesis by simp
  next
    case False
    with "1.prems" have "s' = s" "c' = c"
      by (simp_all add: w_step_loop.simps [of dtv s c])
    with False "1.prems" show ?thesis by auto
  qed
qed

definition w_same_setup_acc :: "wave_solver \<Rightarrow> wave_solver \<Rightarrow> bool" where
  "w_same_setup_acc s s' \<longleftrightarrow> w_same_setup (s\<lparr>w_accumulator := 0\<rparr>) (s'\<lparr>w_accumulator := 0\<rparr>)"

lemma w_same_setup_acc_refl: "w_same_setup_acc s s"
  by (simp add: w_same_setup_acc_def w_same_setup_refl)

lemma w_same_setup_acc_trans:
  "w_same_setup_acc s s' \<Longrightarrow> w_same_setup_acc s' s'' \<Longrightarrow> w_same_setup_acc s s''"
  unfolding w_same_setup_acc_def by (rule w_same_setup_trans)

lemma w_substep_setup_acc: "w_same_setup_acc s (w_substep dtv s)"
  using w_advance_setup [of s dtv]
  by (simp add: w_same_setup_acc_def w_substep_def Let_def w_same_setup_def)

lemma w_substeps_setup_acc: "w_same_setup_acc s ((w_substep dtv ^^ k) s)"
  by (induction k) (auto intro: w_same_setup_acc_refl w_same_setup_acc_trans w_substep_setup_acc)

lemma w_clamp_accumulator_setup_acc: "w_same_setup_acc s (w_clamp_accumulator c s)"
  by (simp add: w_same_setup_acc_def w_clamp_accumulator_def Let_def w_same_setup_def)

lemma w_step_run_funpow:
  assumes "w_step_run d s = (s2, c)"
  shows "c \<le> w_maxSubstepsPerFrame s \<and>
         s2 = (w_substep (w_dt s) ^^ c) (s\<lparr>w_accumulator := w_accumulator s + d\<rparr>) \<and>
         (\<forall>j < c. w_dt s \<le> w_accumulator s + d - real j * w_dt s) \<and>
         (c = w_maxSubstepsPerFrame s \<or> w_accumulator s + d - real c * w_dt s < w_dt s)"
proof -
  let ?s1 = "s\<lparr>w_accumulator := w_accumulator s + d\<rparr>"
  from assms have run: "w_step_loop (w_dt s) ?s1 0 = (s2, c)"
    by (simp add: w_step_run_def Let_def)
  have "0 \<le> w_maxSubstepsPerFrame ?s1" by simp
  from w_step_loop_unfold [OF run this] show ?thesis
    by (auto simp add: w_substeps_accumulator)
qed

lemma w_step_setup_acc: "w_same_setup_acc s (w_step deltaSeconds s)"
proof (cases deltaSeconds)
  case (Num d)
  show ?thesis
  proof (cases "d \<le> 0")
    case True
    with Num show ?thesis by (simp add: w_step_def w_same_setup_acc_refl)
  next
    case False
    obtain s2 c where run: "w_step_run d s = (s2, c)" by (cases "w_step_run d s")
    from w_step_run_funpow [OF run]
    have "s2 = (w_substep (w_dt s) ^^ c) (s\<lparr>w_accumulator := w_accumulator s + d\<rparr>)" by simp
    then have "w_same_setup_acc (s\<lparr>w_accumulator := w_accumulator s + d\<rparr>) s2"
      by (simp add: w_substeps_setup_acc)
    moreover have "w_same_setup_acc s (s\<lparr>w_accumulator := w_accumulator s + d\<rparr>)"
      by (simp add: w_same_setup_acc_def w_same_setup_def)
    ultimately have "w_same_setup_acc s (w_clamp_accumulator c s2)"
      by (blast intro: w_same_setup_acc_trans w_clamp_accumulator_setup_acc)
    with Num False run show ?thesis by (simp add: w_step_def)
  qed
qed (simp_all add: w_step_def w_same_setup_acc_refl)


lemma w_step_noop:
  assumes "deltaSeconds = NaN \<or> deltaSeconds = PosInfinity \<or> deltaSeconds = NegInfinity \<or>
           (\<exists>d. deltaSeconds = Num d \<and> d \<le> 0)"
  shows "w_step deltaSeconds s = s \<and> w_advances_run deltaSeconds s = 0"
  using assms by (auto simp add: w_step_def w_advances_run_def)


lemma w_step_positive:
  assumes "0 < d" and "0 < w_dt s" and "w_maxSubstepsPerFrame s = 8"
  defines "k \<equiv> w_advances_run (Num d) s"
  shows "k \<le> 8"
    and "w_step (Num d) s =
           w_clamp_accumulator k ((w_substep (w_dt s) ^^ k) (s\<lparr>w_accumulator := w_accumulator s + d\<rparr>))"
    and "\<forall>j < k. w_dt s \<le> w_accumulator s + d - real j * w_dt s"
    and "k = 8 \<or> w_accumulator s + d - real k * w_dt s < w_dt s"
    and "w_accumulator (w_step (Num d) s) = min (w_accumulator s + d - real k * w_dt s) (w_dt s * 8)"
proof -
  obtain s2 c where run: "w_step_run d s = (s2, c)" by (cases "w_step_run d s")
  from assms(1) run have k: "k = c" by (simp add: k_def w_advances_run_def)
  note fp = w_step_run_funpow [OF run, unfolded assms(3), folded k]
  from fp show "k \<le> 8" by simp
  from fp have s2: "s2 = (w_substep (w_dt s) ^^ k) (s\<lparr>w_accumulator := w_accumulator s + d\<rparr>)" by simp
  from assms(1) run k show st: "w_step (Num d) s =
      w_clamp_accumulator k ((w_substep (w_dt s) ^^ k) (s\<lparr>w_accumulator := w_accumulator s + d\<rparr>))"
    by (simp add: w_step_def s2)
  from fp show guard: "\<forall>j < k. w_dt s \<le> w_accumulator s + d - real j * w_dt s" by simp
  from fp show ex: "k = 8 \<or> w_accumulator s + d - real k * w_dt s < w_dt s" by simp
  have acc2: "w_accumulator s2 = w_accumulator s + d - real k * w_dt s"
    by (simp add: s2 w_substeps_accumulator)
  have dt2: "w_dt s2 = w_dt s" by (simp add: s2 w_substeps_dt)
  have max2: "w_maxSubstepsPerFrame s2 = 8" by (simp add: s2 w_substeps_maxSubsteps assms(3))
  show "w_accumulator (w_step (Num d) s) = min (w_accumulator s + d - real k * w_dt s) (w_dt s * 8)"
    using ex \<open>k \<le> 8\<close> assms(2)
    unfolding st s2 [symmetric]
    by (auto simp add: w_clamp_accumulator_def Let_def acc2 dt2 max2 min_def)
qed

lemma w_step_accumulator_bound:
  assumes "0 < w_dt s" and "w_maxSubstepsPerFrame s = 8" and "w_accumulator s \<le> w_dt s * 8"
  shows "w_accumulator (w_step deltaSeconds s) \<le> w_dt s * 8"
proof (cases deltaSeconds)
  case (Num d)
  show ?thesis
  proof (cases "0 < d")
    case True
    from w_step_positive(5) [OF True assms(1,2)] Num show ?thesis by simp
  next
    case False
    with Num assms(3) show ?thesis by (simp add: w_step_def)
  qed
qed (simp_all add: w_step_def assms(3))

definition w_reset :: "wave_solver \<Rightarrow> wave_solver" where
  "w_reset s =
     s\<lparr>w_prev := replicate (length (w_prev s)) 0,
       w_curr := replicate (length (w_curr s)) 0,
       w_next := replicate (length (w_next s)) 0,
       w_instantaneous := replicate (length (w_instantaneous s)) 0,
       w_avgPower := replicate (length (w_avgPower s)) 0,
       w_avgMagnitude := replicate (length (w_avgMagnitude s)) 0,
       w_time := 0,
       w_accumulator := 0,
       w_stats := \<lparr> stats_time = 0, maxInstantaneous = 0, meanInstantaneous = 0 \<rparr>\<rparr>"

inductive w_reachable :: "solver_config \<Rightarrow> wave_solver \<Rightarrow> bool" for config where
  w_constructed: "w_reachable config (WaveSolver2D config)"
| w_after_step: "w_reachable config s \<Longrightarrow> w_reachable config (w_step deltaSeconds s)"
| w_after_reset: "w_reachable config s \<Longrightarrow> w_reachable config (w_reset s)"
| w_after_setSources: "w_reachable config s \<Longrightarrow> w_reachable config (w_setSources srcs s)"
| w_after_setBarrier:
    "w_reachable config s \<Longrightarrow> w_reachable config (w_setBarrierFromShapes shapes s)"

definition w_solver_inv :: "solver_config \<Rightarrow> wave_solver \<Rightarrow> bool" where
  "w_solver_inv config s \<longleftrightarrow>
     w_same_setup_acc
       ((WaveSolver2D config)\<lparr>w_sources := w_sources s, w_barrierMask := w_barrierMask s\<rparr>) s \<and>
     length (w_prev s) = w_nx s * w_ny s \<and> length (w_curr s) = w_nx s * w_ny s \<and>
     length (w_next s) = w_nx s * w_ny s"

lemma w_solver_inv_constructed: "w_solver_inv config (WaveSolver2D config)"
  by (simp add: w_solver_inv_def w_same_setup_acc_def w_same_setup_def WaveSolver2D_def)

lemma w_solver_inv_step:
  "w_solver_inv config s \<Longrightarrow> w_solver_inv config (w_step deltaSeconds s)"
  using w_step_setup_acc [of s deltaSeconds]
  by (simp add: w_solver_inv_def w_same_setup_acc_def w_same_setup_def WaveSolver2D_def)

lemma w_solver_inv_reset: "w_solver_inv config s \<Longrightarrow> w_solver_inv config (w_reset s)"
  by (simp add: w_solver_inv_def w_same_setup_acc_def w_same_setup_def w_reset_def WaveSolver2D_def)

lemma w_solver_inv_setSources:
  "w_solver_inv config s \<Longrightarrow> w_solver_inv config (w_setSources srcs s)"
  by (simp add: w_solver_inv_def w_same_setup_acc_def w_same_setup_def w_setSources_def
        WaveSolver2D_def)

lemma w_solver_inv_setBarrier:
  "w_solver_inv config s \<Longrightarrow> w_solver_inv config (w_setBarrierFromShapes shapes s)"
  by (simp add: w_solver_inv_def w_same_setup_acc_def w_same_setup_def
        w_setBarrierFromShapes_def WaveSolver2D_def)

lemma w_reachable_inv: "w_reachable config s \<Longrightarrow> w_solver_inv config s"
  by (induction rule: w_reachable.induct)
     (auto intro: w_solver_inv_constructed w_solver_inv_step w_solver_inv_reset
        w_solver_inv_setSources w_solver_inv_setBarrier)

lemma w_solver_inv_fields:
  assumes "w_solver_inv config s"
  shows "w_dt s = w_dt_of config" and "w_maxSubstepsPerFrame s = 8"
    and "w_nx s = nx_of config" and "w_ny s = ny_of config"
    and "length (w_prev s) = w_nx s * w_ny s" and "length (w_curr s) = w_nx s * w_ny s"
    and "length (w_next s) = w_nx s * w_ny s"
    and "length (w_instantaneous s) = w_nx s * w_ny s"
    and "length (w_avgPower s) = w_nx s * w_ny s"
    and "length (w_avgMagnitude s) = w_nx s * w_ny s"
  using assms
  by (simp_all add: w_solver_inv_def w_same_setup_acc_def w_same_setup_def WaveSolver2D_def)

lemma w_reachable_accumulator:
  assumes "w_reachable config s" and "0 < w_dt_of config"
  shows "w_accumulator s \<le> w_dt s * 8"
  using assms(1)
proof (induction rule: w_reachable.induct)
  case w_constructed
  from assms(2) show ?case by (simp add: WaveSolver2D_def)
next
  case (w_after_step s deltaSeconds)
  from w_reachable_inv [OF w_after_step.hyps] have inv: "w_solver_inv config s" .
  from w_solver_inv_step [OF inv] have "w_dt (w_step deltaSeconds s) = w_dt_of config"
    by (rule w_solver_inv_fields)
  moreover have "w_accumulator (w_step deltaSeconds s) \<le> w_dt s * 8"
    using assms(2) w_after_step.IH w_solver_inv_fields(1,2) [OF inv]
    by (intro w_step_accumulator_bound) simp_all
  ultimately show ?case using w_solver_inv_fields(1) [OF inv] by simp
next
  case (w_after_reset s)
  from w_reachable_inv [OF w_after_reset.hyps] have inv: "w_solver_inv config s" .
  from w_solver_inv_reset [OF inv] have "w_dt (w_reset s) = w_dt_of config"
    by (rule w_solver_inv_fields)
  with assms(2) show ?case by (simp add: w_reset_def)
next
  case (w_after_setSources s srcs)
  then show ?case by (simp add: w_setSources_def)
next
  case (w_after_setBarrier s shapes)
  then show ?case by (simp add: w_setBarrierFromShapes_def)
qed

text \<open>
  The scalar solver satisfies the same statements about its time step, its step driver
  (\<open>w_step_noop\<close> for an argument that is not finite and positive) and its reset. Its
  constructor clamps the wave speed to \<open>[0.05, 20]\<close>; over the reals its Courant number
  is at most \<open>0.45\<close>, and in double precision it is at most \<open>0.45 * (1 + 2 ^ (- 50))\<close> and
  exceeds \<open>0.45\<close> on the coarse configuration, where the two constructors return the same
  time step.
\<close>

definition w_waveSpeed_double :: "solver_settings \<Rightarrow> real" where
  "w_waveSpeed_double solver =
     (let rawSpeed = (case speed solver of Num v \<Rightarrow> v | _ \<Rightarrow> 1)
      in clamp rawSpeed (to_double 0.05) 20)"

definition w_dt_double :: "solver_config \<Rightarrow> real" where
  "w_dt_double config =
     (let minCell = min (dx_double config) (dy_double config);
          waveSpeed = w_waveSpeed_double (cfg_solver config)
      in to_double (to_double (cfl_double config * minCell) / to_double (waveSpeed * SQRT2)))"

lemma w_waveSpeed_of_bounds: "0.05 \<le> w_waveSpeed_of solver \<and> w_waveSpeed_of solver \<le> 20"
  by (simp add: w_waveSpeed_of_def clamp_def Let_def split: jsnum.splits)

lemma scalar_time_step_exact:
  assumes "0 < fst (worldSize (cfg_domain config))"
    and "0 < snd (worldSize (cfg_domain config))"
    and "cfg_cfl config = None"
  shows "let s = WaveSolver2D config; c = w_waveSpeed_of (cfg_solver config)
         in 2 \<le> w_nx s \<and> 2 \<le> w_ny s \<and> 0.05 \<le> c \<and> c \<le> 20 \<and>
            w_dx s = fst (worldSize (cfg_domain config)) / real (w_nx s - 1) \<and>
            w_dy s = snd (worldSize (cfg_domain config)) / real (w_ny s - 1) \<and>
            w_dt s = 0.45 * min (w_dx s) (w_dy s) / (c * sqrt 2) \<and>
            c * w_dt s * sqrt (1 / (w_dx s)\<^sup>2 + 1 / (w_dy s)\<^sup>2) \<le> 0.45"
proof -
  let ?s = "WaveSolver2D config" and ?c = "w_waveSpeed_of (cfg_solver config)"
  have sel: "w_nx ?s = nx_of config" "w_ny ?s = ny_of config" "w_dx ?s = dx_of config"
    "w_dy ?s = dy_of config" "w_dt ?s = w_dt_of config"
    by (simp_all add: WaveSolver2D_def)
  have c: "0 < ?c" "0.05 \<le> ?c" "?c \<le> 20"
    using w_waveSpeed_of_bounds [of "cfg_solver config"] by simp_all
  have cfl: "cfl_of config = 0.45" using assms(3) by (simp add: cfl_of_def)
  have dt: "w_dt ?s = 0.45 * min (w_dx ?s) (w_dy ?s) / (?c * sqrt 2)"
    by (simp add: sel w_dt_of_def Let_def cfl)
  have "?c * (0.45 * min (dx_of config) (dy_of config) / (?c * sqrt 2))
          * sqrt (1 / (dx_of config)\<^sup>2 + 1 / (dy_of config)\<^sup>2) \<le> 0.45"
    by (rule courant_bound [OF dx_of_pos [OF assms(1)] dy_of_pos [OF assms(2)] c(1)]) simp
  then have stab: "?c * w_dt ?s * sqrt (1 / (w_dx ?s)\<^sup>2 + 1 / (w_dy ?s)\<^sup>2) \<le> 0.45"
    unfolding dt unfolding sel .
  have geo: "2 \<le> w_nx ?s" "2 \<le> w_ny ?s"
    "w_dx ?s = fst (worldSize (cfg_domain config)) / real (w_nx ?s - 1)"
    "w_dy ?s = snd (worldSize (cfg_domain config)) / real (w_ny ?s - 1)"
    unfolding sel by (rule nx_of_ge2 ny_of_ge2 dx_of_eq dy_of_eq)+
  show ?thesis
    unfolding Let_def using geo c(2,3) dt stab by simp
qed

lemma w_waveSpeed_double_bounds:
  "to_double 0.05 \<le> w_waveSpeed_double solver" "w_waveSpeed_double solver \<le> 20"
  "1 / 50 \<le> w_waveSpeed_double solver" "w_waveSpeed_double solver \<le> 50"
  unfolding w_waveSpeed_double_def clamp_def Let_def to_double_005
  by (simp_all add: le_max_iff_disj min_le_iff_disj)

lemma scalar_time_step_double:
  assumes "1 \<le> fst (worldSize (cfg_domain config))"
    and "fst (worldSize (cfg_domain config)) \<le> 500"
    and "1 \<le> snd (worldSize (cfg_domain config))"
    and "snd (worldSize (cfg_domain config)) \<le> 500"
    and "fst (grid (cfg_domain config)) \<le> 512"
    and "snd (grid (cfg_domain config)) \<le> 512"
    and "cfg_cfl config = None"
  shows "let c = w_waveSpeed_double (cfg_solver config);
             dxv = dx_double config; dyv = dy_double config; dtv = w_dt_double config
         in to_double 0.05 \<le> c \<and> c \<le> 20 \<and>
            dtv = to_double (to_double (to_double 0.45 * min dxv dyv)
                               / to_double (c * SQRT2)) \<and>
            0 < dtv \<and> dtv \<le> 2 ^ 20 \<and>
            c * dtv * sqrt (1 / dxv\<^sup>2 + 1 / dyv\<^sup>2) \<le> 0.45 * (1 + 1 / 2 ^ 50)"
proof -
  let ?c = "w_waveSpeed_double (cfg_solver config)"
  have nx: "nx_of config \<le> 512"
    using assms(5) by (simp add: nx_of_def nat_le_iff floor_le_iff)
  have ny: "ny_of config \<le> 512"
    using assms(6) by (simp add: ny_of_def nat_le_iff floor_le_iff)
  have dx: "1 / 1024 \<le> dx_double config" "dx_double config \<le> 1024"
    unfolding dx_double_def by (rule cell_double_bounds [OF assms(1,2) nx_of_ge2 nx])+
  have dy: "1 / 1024 \<le> dy_double config" "dy_double config \<le> 1024"
    unfolding dy_double_def by (rule cell_double_bounds [OF assms(3,4) ny_of_ge2 ny])+
  have dt: "w_dt_double config
      = to_double (to_double (to_double 0.45 * min (dx_double config) (dy_double config))
                     / to_double (?c * to_double (sqrt 2)))"
    using assms(7) by (simp add: w_dt_double_def Let_def cfl_double_def SQRT2_nearest)
  note b = rounded_courant_bound [OF dx dy w_waveSpeed_double_bounds(3,4), of "cfg_solver config",
      folded dt]
  have dt': "w_dt_double config
      = to_double (to_double (to_double 0.45 * min (dx_double config) (dy_double config))
                     / to_double (?c * SQRT2))"
    using assms(7) by (simp add: w_dt_double_def Let_def cfl_double_def)
  show ?thesis
    unfolding Let_def
    using w_waveSpeed_double_bounds(1,2) [of "cfg_solver config"] dt' b
    by blast
qed

lemma scalar_coarse_dt:
  "w_waveSpeed_double (cfg_solver coarse_config) = waveSpeed_double (cfg_solver coarse_config)"
  "w_dt_double coarse_config = dt_double coarse_config"
proof -
  show c: "w_waveSpeed_double (cfg_solver coarse_config)
      = waveSpeed_double (cfg_solver coarse_config)"
    unfolding w_waveSpeed_double_def waveSpeed_double_def coarse_config_def clamp_def to_double_005
    by (simp add: to_double_03)
  show "w_dt_double coarse_config = dt_double coarse_config"
    by (simp add: w_dt_double_def dt_double_def c)
qed

lemma scalar_step_substep_cap:
  assumes "w_reachable config s" and "0 < w_dt (WaveSolver2D config)"
  shows "w_advances_run deltaSeconds s \<le> 8 \<and>
         w_accumulator (w_step deltaSeconds s) \<le> w_dt s * 8 \<and>
         (\<forall>d. deltaSeconds = Num d \<and> 0 < d \<longrightarrow>
            (let k = w_advances_run deltaSeconds s
             in w_step deltaSeconds s =
                  w_clamp_accumulator k
                    ((w_substep (w_dt s) ^^ k) (s\<lparr>w_accumulator := w_accumulator s + d\<rparr>)) \<and>
                (\<forall>j < k. w_dt s \<le> w_accumulator s + d - real j * w_dt s) \<and>
                (k = 8 \<or> w_accumulator s + d - real k * w_dt s < w_dt s) \<and>
                w_accumulator (w_step deltaSeconds s) =
                  min (w_accumulator s + d - real k * w_dt s) (w_dt s * 8)))"
proof -
  from assms(2) have pos: "0 < w_dt_of config" by (simp add: WaveSolver2D_def)
  from w_reachable_inv [OF assms(1)] have inv: "w_solver_inv config s" .
  note f = w_solver_inv_fields(1,2) [OF inv]
  from pos f have dts: "0 < w_dt s" by simp
  have "w_advances_run deltaSeconds s \<le> 8"
  proof (cases deltaSeconds)
    case (Num d)
    show ?thesis
    proof (cases "0 < d")
      case True
      from w_step_positive(1) [OF True dts f(2)] Num show ?thesis by simp
    next
      case False
      with Num show ?thesis by (simp add: w_advances_run_def)
    qed
  qed (simp_all add: w_advances_run_def)
  moreover have "w_accumulator (w_step deltaSeconds s) \<le> w_dt s * 8"
    by (rule w_step_accumulator_bound [OF dts f(2) w_reachable_accumulator [OF assms(1) pos]])
  moreover have "w_step (Num d) s =
        w_clamp_accumulator (w_advances_run (Num d) s)
          ((w_substep (w_dt s) ^^ w_advances_run (Num d) s)
             (s\<lparr>w_accumulator := w_accumulator s + d\<rparr>)) \<and>
      (\<forall>j < w_advances_run (Num d) s. w_dt s \<le> w_accumulator s + d - real j * w_dt s) \<and>
      (w_advances_run (Num d) s = 8 \<or>
         w_accumulator s + d - real (w_advances_run (Num d) s) * w_dt s < w_dt s) \<and>
      w_accumulator (w_step (Num d) s) =
         min (w_accumulator s + d - real (w_advances_run (Num d) s) * w_dt s) (w_dt s * 8)"
    if "0 < d" for d
    using w_step_positive(2-5) [OF that dts f(2)] by blast
  ultimately show ?thesis unfolding Let_def by blast
qed

lemma scalar_reset_restores:
  assumes "w_reachable config s"
  shows "let r = w_reset s
         in w_prev r = replicate (w_nx s * w_ny s) 0 \<and> w_curr r = replicate (w_nx s * w_ny s) 0 \<and>
            w_next r = replicate (w_nx s * w_ny s) 0 \<and>
            w_instantaneous r = replicate (w_nx s * w_ny s) 0 \<and>
            w_avgPower r = replicate (w_nx s * w_ny s) 0 \<and>
            w_avgMagnitude r = replicate (w_nx s * w_ny s) 0 \<and>
            w_time r = 0 \<and> w_accumulator r = 0 \<and>
            w_stats r = \<lparr> stats_time = 0, maxInstantaneous = 0, meanInstantaneous = 0 \<rparr> \<and>
            w_reset r = r \<and>
            r = (WaveSolver2D config)\<lparr>w_sources := w_sources s,
                                        w_barrierMask := w_barrierMask s\<rparr>"
proof -
  from w_reachable_inv [OF assms] have inv: "w_solver_inv config s" .
  note len = w_solver_inv_fields(3-10) [OF inv]
  have same: "w_same_setup_acc ((WaveSolver2D config)\<lparr>w_sources := w_sources s,
        w_barrierMask := w_barrierMask s\<rparr>) s"
    using inv by (simp add: w_solver_inv_def)
  have whole: "w_reset s = (WaveSolver2D config)\<lparr>w_sources := w_sources s,
                                        w_barrierMask := w_barrierMask s\<rparr>"
    using same len
    by (intro wave_solver.equality)
       (simp_all add: w_reset_def w_same_setup_acc_def w_same_setup_def WaveSolver2D_def)
  have arrays: "w_prev (w_reset s) = replicate (w_nx s * w_ny s) 0"
    "w_curr (w_reset s) = replicate (w_nx s * w_ny s) 0"
    "w_next (w_reset s) = replicate (w_nx s * w_ny s) 0"
    "w_instantaneous (w_reset s) = replicate (w_nx s * w_ny s) 0"
    "w_avgPower (w_reset s) = replicate (w_nx s * w_ny s) 0"
    "w_avgMagnitude (w_reset s) = replicate (w_nx s * w_ny s) 0"
    using len by (simp_all add: w_reset_def)
  have scalars: "w_time (w_reset s) = 0" "w_accumulator (w_reset s) = 0"
    "w_stats (w_reset s) = \<lparr> stats_time = 0, maxInstantaneous = 0, meanInstantaneous = 0 \<rparr>"
    "w_reset (w_reset s) = w_reset s"
    by (simp_all add: w_reset_def)
  show ?thesis
    unfolding Let_def by (intro conjI arrays scalars whole)
qed

end
